theory Spec2Isabelle
  imports Main "HOL-Library.AList" "HOL-Library.Multiset"
begin

section \<open>Strings and dictionaries\<close>

text \<open>
  Strings are character lists. \<open>lower\<close> is \<open>str.lower\<close> on ASCII text: the letters
  \<open>A\<close> to \<open>Z\<close> are mapped to \<open>a\<close> to \<open>z\<close>, every other character is kept.
  \<open>startswith\<close>, \<open>endswith\<close> and \<open>contains\<close> are \<open>str.startswith\<close>,
  \<open>str.endswith\<close> and the operator \<open>in\<close> on strings.

  A Python \<open>dict\<close> is an association list in insertion order: \<open>map_of d k\<close> reads a
  key, and the assignment \<open>d[k] = v\<close> is \<open>AList.update k v d\<close>, which replaces the value
  in place when the key is there and appends the pair at the end when it is not.
\<close>

definition lower_char :: "char \<Rightarrow> char" where
  "lower_char c =
     (case map_of (zip ''ABCDEFGHIJKLMNOPQRSTUVWXYZ'' ''abcdefghijklmnopqrstuvwxyz'') c of
        Some l \<Rightarrow> l
      | None \<Rightarrow> c)"

definition lower :: "string \<Rightarrow> string" where
  "lower s = map lower_char s"

fun startswith :: "'a list \<Rightarrow> 'a list \<Rightarrow> bool" where
  "startswith s [] = True"
| "startswith [] (p # ps) = False"
| "startswith (c # s) (p # ps) = (c = p \<and> startswith s ps)"

fun contains :: "'a list \<Rightarrow> 'a list \<Rightarrow> bool" where
  "contains [] needle = (needle = [])"
| "contains (c # s) needle = (startswith (c # s) needle \<or> contains s needle)"

definition endswith :: "'a list \<Rightarrow> 'a list \<Rightarrow> bool" where
  "endswith s suf = startswith (rev s) (rev suf)"

text \<open>One step of \<open>os.path.join\<close> on POSIX paths; \<open>os.path.join(a, b, c)\<close> is two steps.\<close>

definition path_join :: "string \<Rightarrow> string \<Rightarrow> string" where
  "path_join path b =
     (if startswith b ''/'' then b
      else if path = [] \<or> endswith path ''/'' then path @ b
      else path @ ''/'' @ b)"

section \<open>The retrying executor: \<open>add_mod_to_version\<close> (build_extensions.py)\<close>

text \<open>
  The external tool is outside the program, so one call of \<open>add_mod_to_version\<close> is
  modelled against the answers its invocations get: \<open>run k\<close> is what the \<open>k\<close>-th call of
  \<open>subprocess.run\<close> made by this call ends with (an exit code, some raised exception, or
  the 300 second timeout, which \<open>subprocess.run\<close> raises as \<open>TimeoutExpired\<close>).
  What the call does to the outside world is returned as a trace of events.
\<close>

datatype py_error = IndexError | ValueError

datatype run_result = Completed int | Raised | TimedOut

datatype event = Invoke string string | Sleep nat

definition retry_delays :: "nat list" where
  "retry_delays = [1, 3, 9]"

text \<open>
  The two lines \<open>if attempt < max_retries - 1: delay = retry_delays[attempt]\<close>: no delay
  on the last round, the table's entry otherwise, and Python's \<open>IndexError\<close> when the
  table has no such entry.
\<close>

definition backoff :: "int \<Rightarrow> int \<Rightarrow> py_error + nat option" where
  "backoff attempt max_retries =
     (if attempt < max_retries - 1
      then (if nat attempt < length retry_delays
            then Inr (Some (retry_delays ! nat attempt))
            else Inl IndexError)
      else Inr None)"

text \<open>
  What follows an attempt that did not exit with code 0. After a non-zero exit code the
  delay is looked up inside the \<open>try\<close> block, so an \<open>IndexError\<close> there is caught by
  \<open>except Exception\<close>, whose handler looks the delay up again; an error raised by the
  handler leaves the function.
\<close>

definition after_attempt :: "run_result \<Rightarrow> int \<Rightarrow> int \<Rightarrow> py_error + nat option" where
  "after_attempt r attempt max_retries =
     (case r of
        Completed rc \<Rightarrow>
          (case backoff attempt max_retries of
             Inl e \<Rightarrow> backoff attempt max_retries
           | Inr d \<Rightarrow> Inr d)
      | Raised \<Rightarrow> backoff attempt max_retries
      | TimedOut \<Rightarrow> backoff attempt max_retries)"

function attempt_loop ::
  "(nat \<Rightarrow> run_result) \<Rightarrow> string \<Rightarrow> string \<Rightarrow> int \<Rightarrow> int \<Rightarrow> event list
     \<Rightarrow> (py_error + bool \<times> int) \<times> event list" where
  "attempt_loop run command cwd max_retries attempt tr =
     (if attempt < max_retries then
        (let tr1 = tr @ [Invoke command cwd]; r = run (nat attempt) in
         if r = Completed 0 then (Inr (True, attempt + 1), tr1)
         else (case after_attempt r attempt max_retries of
                 Inl e \<Rightarrow> (Inl e, tr1)
               | Inr None \<Rightarrow> attempt_loop run command cwd max_retries (attempt + 1) tr1
               | Inr (Some d) \<Rightarrow>
                   attempt_loop run command cwd max_retries (attempt + 1) (tr1 @ [Sleep d])))
      else (Inr (False, max_retries), tr))"
  by pat_completeness auto
termination
  by (relation "measure (\<lambda>(run, command, cwd, max_retries, attempt, tr).
        nat (max_retries - attempt))") auto

declare attempt_loop.simps [simp del]

definition add_mod_to_version ::
  "(string \<Rightarrow> bool) \<Rightarrow> (nat \<Rightarrow> run_result) \<Rightarrow> string \<Rightarrow> string \<Rightarrow> string \<Rightarrow> int
     \<Rightarrow> (py_error + bool \<times> int) \<times> event list" where
  "add_mod_to_version isdir run version_path mod_url platform max_retries =
     (if \<not> isdir version_path then (Inr (False, 0), [])
      else
        (let platform_cmd = (if platform = ''modrinth'' then ''mr'' else ''cf'');
             command = ''packwiz '' @ platform_cmd @ '' add '' @ mod_url @ '' --yes''
         in attempt_loop run command version_path max_retries 0 []))"

text \<open>The command line a call builds, and the delays slept in a trace.\<close>

definition add_command :: "string \<Rightarrow> string \<Rightarrow> string" where
  "add_command platform mod_url =
     ''packwiz '' @ (if platform = ''modrinth'' then ''mr'' else ''cf'') @ '' add '' @ mod_url
       @ '' --yes''"

fun delays_of :: "event list \<Rightarrow> nat list" where
  "delays_of [] = []"
| "delays_of (Sleep d # es) = d # delays_of es"
| "delays_of (Invoke c w # es) = delays_of es"

section \<open>Install planning and the failure report (build_extensions.py)\<close>

text \<open>
  A mod entry of a descriptor is a table with an optional \<open>name\<close> and further keys, each
  holding a table from game versions to URLs; the loader keys \<open>fabric\<close>, \<open>forge\<close> and
  \<open>neoforge\<close> are the ones the program reads.
\<close>

record mod_entry =
  name :: "string option"
  loader_tables :: "(string \<times> (string \<times> string) list) list"

definition mod_name :: "mod_entry \<Rightarrow> string" where
  "mod_name m = (case name m of None \<Rightarrow> ''Unnamed'' | Some n \<Rightarrow> n)"

definition LOADERS :: "string list" where
  "LOADERS = [''fabric'', ''forge'', ''neoforge'']"

definition detect_url_platform :: "string \<Rightarrow> string" where
  "detect_url_platform url =
     (if contains (lower url) ''modrinth.com'' then ''modrinth''
      else if contains (lower url) ''curseforge.com'' then ''curseforge''
      else ''modrinth'')"

text \<open>The directory tree is read through \<open>os.path.isdir\<close> only: \<open>isdir\<close> is the snapshot.\<close>

definition get_version_path :: "(string \<Rightarrow> bool) \<Rightarrow> string \<Rightarrow> string \<Rightarrow> string \<Rightarrow> string option" where
  "get_version_path isdir base_dir loader version =
     (let path = path_join (path_join base_dir loader) version
      in if isdir path then Some path else None)"

record task =
  task_name :: string
  task_loader :: string
  task_version :: string
  task_url :: string
  task_platform :: string
  task_version_path :: string

text \<open>
  The three nested loops that collect the tasks. \<open>if version_path:\<close> is Python's truth
  test: neither \<open>None\<close> nor the empty string passes.
\<close>

definition version_tasks ::
  "(string \<Rightarrow> bool) \<Rightarrow> string \<Rightarrow> string \<Rightarrow> string \<Rightarrow> string \<times> string \<Rightarrow> task list" where
  "version_tasks isdir base_dir mname loader item =
     (case item of (version, url) \<Rightarrow>
        (case get_version_path isdir base_dir loader version of
           None \<Rightarrow> []
         | Some version_path \<Rightarrow>
             if version_path = [] then []
             else [\<lparr>task_name = mname, task_loader = loader, task_version = version,
                    task_url = url, task_platform = detect_url_platform url,
                    task_version_path = version_path\<rparr>]))"

definition loader_tasks ::
  "(string \<Rightarrow> bool) \<Rightarrow> string \<Rightarrow> mod_entry \<Rightarrow> string \<Rightarrow> task list" where
  "loader_tasks isdir base_dir m loader =
     (let loader_config = (case map_of (loader_tables m) loader of None \<Rightarrow> [] | Some c \<Rightarrow> c)
      in concat (map (version_tasks isdir base_dir (mod_name m) loader) loader_config))"

definition plan_tasks :: "(string \<Rightarrow> bool) \<Rightarrow> string \<Rightarrow> mod_entry list \<Rightarrow> task list" where
  "plan_tasks isdir base_dir mods =
     concat (map (\<lambda>m. concat (map (loader_tasks isdir base_dir m) LOADERS)) mods)"

text \<open>
  One task of the pool: \<open>add_mod_to_version\<close> with its default of 3 attempts.
\<close>

definition install_task ::
  "(string \<Rightarrow> bool) \<Rightarrow> (nat \<Rightarrow> run_result) \<Rightarrow> task \<Rightarrow> py_error + bool \<times> int" where
  "install_task isdir run t =
     fst (add_mod_to_version isdir run (task_version_path t) (task_url t) (task_platform t) 3)"

text \<open>
  The report is a \<open>defaultdict(list)\<close>: \<open>failed[key].append(name)\<close> first creates the
  key with an empty list when it is missing, at the end of the dictionary.
\<close>

type_synonym report = "(string \<times> string list) list"

definition task_key :: "task \<Rightarrow> string" where
  "task_key t = task_loader t @ ''/'' @ task_version t"

definition append_failed :: "string \<Rightarrow> string \<Rightarrow> report \<Rightarrow> report" where
  "append_failed key nm failed =
     AList.update key ((case map_of failed key of None \<Rightarrow> [] | Some names \<Rightarrow> names) @ [nm])
       failed"

text \<open>
  The loop over \<open>as_completed\<close> runs in the calling thread and sees the outcomes one by
  one, in the order in which the tasks complete; \<open>future.result()\<close> raises again what the
  task raised.
\<close>

fun collect_failed :: "(task \<times> (py_error + bool \<times> int)) list \<Rightarrow> report \<Rightarrow> py_error + report" where
  "collect_failed [] failed = Inr failed"
| "collect_failed ((t, Inl e) # rest) failed = Inl e"
| "collect_failed ((t, Inr (success, attempts)) # rest) failed =
     collect_failed rest
       (if \<not> success then append_failed (task_key t) (task_name t) failed else failed)"

text \<open>
  The whole of \<open>add_mods_to_versions\<close>. The pool is modelled by what the program can
  observe of it: \<open>completion\<close> lists the indices of the tasks in the order in which they
  complete, task \<open>i\<close> sees the directory tree \<open>isdir_exec i\<close> when it starts and gets the
  answers \<open>env i\<close> from the external tool. \<open>ThreadPoolExecutor\<close> raises \<open>ValueError\<close>
  for a pool of no workers.
\<close>

definition task_outcomes ::
  "(nat \<Rightarrow> string \<Rightarrow> bool) \<Rightarrow> (nat \<Rightarrow> nat \<Rightarrow> run_result) \<Rightarrow> task list \<Rightarrow> nat list
     \<Rightarrow> (task \<times> (py_error + bool \<times> int)) list" where
  "task_outcomes isdir_exec env tasks completion =
     map (\<lambda>i. (tasks ! i, install_task (isdir_exec i) (env i) (tasks ! i))) completion"

definition add_mods_to_versions ::
  "(string \<Rightarrow> bool) \<Rightarrow> (nat \<Rightarrow> string \<Rightarrow> bool) \<Rightarrow> (nat \<Rightarrow> nat \<Rightarrow> run_result) \<Rightarrow> nat list
     \<Rightarrow> string \<Rightarrow> mod_entry list \<Rightarrow> int \<Rightarrow> py_error + report" where
  "add_mods_to_versions isdir isdir_exec env completion base_dir mods currency =
     (let tasks = plan_tasks isdir base_dir mods in
      if tasks = [] then Inr []
      else if currency \<le> 0 then Inl ValueError
      else collect_failed (task_outcomes isdir_exec env tasks completion) [])"

text \<open>
  The order of a list's elements by first occurrence, and the tasks that failed, in
  completion order.
\<close>

fun first_seen :: "'a list \<Rightarrow> 'a list" where
  "first_seen [] = []"
| "first_seen (x # xs) = x # removeAll x (first_seen xs)"

definition failing_tasks :: "(task \<times> (py_error + bool \<times> int)) list \<Rightarrow> task list" where
  "failing_tasks outcomes =
     map fst (filter (\<lambda>(t, r). case r of Inl e \<Rightarrow> False | Inr (success, attempts) \<Rightarrow> \<not> success)
       outcomes)"

definition valid_completion :: "nat list \<Rightarrow> nat \<Rightarrow> bool" where
  "valid_completion completion n = (distinct completion \<and> set completion = {0..<n})"

definition report_of :: "task list \<Rightarrow> report" where
  "report_of ts = foldl (\<lambda>f t. append_failed (task_key t) (task_name t) f) [] ts"

text \<open>
  The spec speaks of a match against the \<open>URL host\<close>. Following the spec's words, and only
  for comparison with \<open>detect_url_platform\<close>: the host of a URL is the text between the
  \<open>://\<close> of its scheme (the start of the URL when it has none) and the next \<open>/\<close>,
  \<open>?\<close> or \<open>#\<close>, and \<open>platform_by_host\<close> is the detection the spec describes.
\<close>

fun after_scheme :: "string \<Rightarrow> string" where
  "after_scheme [] = []"
| "after_scheme (c # s) = (if startswith (c # s) ''://'' then drop 3 (c # s) else after_scheme s)"

definition url_host :: "string \<Rightarrow> string" where
  "url_host url =
     takeWhile (\<lambda>c. c \<notin> set ''/?#'') (if contains url ''://'' then after_scheme url else url)"

definition platform_by_host :: "string \<Rightarrow> string" where
  "platform_by_host url =
     (if contains (lower (url_host url)) ''modrinth.com'' then ''modrinth''
      else if contains (lower (url_host url)) ''curseforge.com'' then ''curseforge''
      else ''modrinth'')"

section \<open>Merging descriptors: \<open>merge_mods\<close> (build_extensions.py)\<close>

text \<open>
  A parsed descriptor: its \<open>metadata\<close> table, its mod entries in file order and the path
  it was read from. The intermediate dictionary \<open>mods_dict\<close> maps a triple of mod name,
  loader and game version to a table with the fields \<open>name\<close>, \<open>loader\<close>, \<open>version\<close> and
  \<open>url\<close>.
\<close>

record extension =
  metadata :: "(string \<times> string) list"
  mods :: "mod_entry list"
  source_file :: string

record mod_info =
  info_name :: string
  info_loader :: string
  info_version :: string
  info_url :: string

type_synonym triple = "string \<times> string \<times> string"

text \<open>
  The body of the innermost loop: a key that is already there has the \<open>url\<close> of its
  table replaced, a new key gets a new table, at the end of the dictionary.
\<close>

definition record_url ::
  "(triple \<times> mod_info) list \<Rightarrow> string \<Rightarrow> string \<Rightarrow> string \<Rightarrow> string \<Rightarrow> (triple \<times> mod_info) list" where
  "record_url mods_dict mname loader version url =
     (let key = (mname, loader, version) in
      case map_of mods_dict key of
        Some info \<Rightarrow> AList.update key (info\<lparr>info_url := url\<rparr>) mods_dict
      | None \<Rightarrow>
          AList.update key
            \<lparr>info_name = mname, info_loader = loader, info_version = version, info_url = url\<rparr>
            mods_dict)"

text \<open>The four nested loops, from the innermost to the outermost.\<close>

definition merge_loader ::
  "(triple \<times> mod_info) list \<Rightarrow> mod_entry \<Rightarrow> string \<Rightarrow> (triple \<times> mod_info) list" where
  "merge_loader mods_dict m loader =
     (case map_of (loader_tables m) loader of
        None \<Rightarrow> mods_dict
      | Some loader_config \<Rightarrow>
          foldl (\<lambda>d (version, url). record_url d (mod_name m) loader version url) mods_dict
            loader_config)"

definition merge_mod :: "(triple \<times> mod_info) list \<Rightarrow> mod_entry \<Rightarrow> (triple \<times> mod_info) list" where
  "merge_mod mods_dict m = foldl (\<lambda>d loader. merge_loader d m loader) mods_dict LOADERS"

definition merge_extension ::
  "(triple \<times> mod_info) list \<Rightarrow> extension \<Rightarrow> (triple \<times> mod_info) list" where
  "merge_extension mods_dict e = foldl merge_mod mods_dict (mods e)"

definition collect_mods :: "extension list \<Rightarrow> (triple \<times> mod_info) list" where
  "collect_mods extensions = foldl merge_extension [] extensions"

text \<open>
  The second loop regroups the entries by mod name. Its three statements create the mod's
  table when the name is new, create the loader's table when the loader is new for this
  mod, and store the URL under the version; as one update of the dictionary:
\<close>

definition place_mod :: "(string \<times> mod_entry) list \<Rightarrow> triple \<times> mod_info \<Rightarrow> (string \<times> mod_entry) list" where
  "place_mod result_mods item =
     (case item of ((mname, loader, version), info) \<Rightarrow>
        (let m = (case map_of result_mods mname of
                    None \<Rightarrow> \<lparr>name = Some mname, loader_tables = []\<rparr>
                  | Some m \<Rightarrow> m);
             loader_config = (case map_of (loader_tables m) loader of None \<Rightarrow> [] | Some c \<Rightarrow> c)
         in AList.update mname
              (m\<lparr>loader_tables :=
                   AList.update loader (AList.update version (info_url info) loader_config)
                     (loader_tables m)\<rparr>)
              result_mods))"

definition merge_mods :: "extension list \<Rightarrow> mod_entry list" where
  "merge_mods extensions = map snd (foldl place_mod [] (collect_mods extensions))"

text \<open>
  The words of the spec, to compare \<open>merge_mods\<close> with. A mod entry defines a triple when
  it has the triple's name, the loader is one of the three and the loader's table has the
  version; a descriptor gives a triple the URL of its last entry that defines it; the last
  writer of a triple is the last descriptor, in input order, that defines it.
  \<open>merged_urls\<close> lists every URL that a merged set holds for a triple.
\<close>

definition entry_url :: "mod_entry \<Rightarrow> triple \<Rightarrow> string option" where
  "entry_url m t =
     (case t of (n, loader, version) \<Rightarrow>
        if mod_name m = n \<and> loader \<in> set LOADERS
        then (case map_of (loader_tables m) loader of
                None \<Rightarrow> None
              | Some loader_config \<Rightarrow> map_of loader_config version)
        else None)"

definition descriptor_url :: "extension \<Rightarrow> triple \<Rightarrow> string option" where
  "descriptor_url e t =
     (case filter (\<lambda>m. entry_url m t \<noteq> None) (mods e) of
        [] \<Rightarrow> None
      | ms \<Rightarrow> entry_url (last ms) t)"

definition last_writer :: "extension list \<Rightarrow> triple \<Rightarrow> string option" where
  "last_writer extensions t =
     (case filter (\<lambda>e. descriptor_url e t \<noteq> None) extensions of
        [] \<Rightarrow> None
      | es \<Rightarrow> descriptor_url (last es) t)"

definition merged_urls :: "mod_entry list \<Rightarrow> triple \<Rightarrow> string list" where
  "merged_urls merged t =
     (case t of (n, loader, version) \<Rightarrow>
        concat (map (\<lambda>m.
          if mod_name m = n
          then concat (map (\<lambda>(l, loader_config).
                 if l = loader
                 then map snd (filter (\<lambda>(v, u). v = version) loader_config)
                 else []) (loader_tables m))
          else []) merged))"

text \<open>A table parsed from a file has every key once.\<close>

definition wf_descriptor :: "extension \<Rightarrow> bool" where
  "wf_descriptor e =
     (\<forall>m\<in>set (mods e). \<forall>(loader, loader_config)\<in>set (loader_tables m).
        distinct (map fst loader_config))"

text \<open>The definitions of a mod entry, a descriptor and a list of descriptors, in the order
  in which the loops visit them.\<close>

definition loader_defs :: "mod_entry \<Rightarrow> string \<Rightarrow> (triple \<times> string) list" where
  "loader_defs m loader =
     (case map_of (loader_tables m) loader of
        None \<Rightarrow> []
      | Some loader_config \<Rightarrow> map (\<lambda>(version, url). ((mod_name m, loader, version), url)) loader_config)"

definition mod_defs :: "mod_entry \<Rightarrow> (triple \<times> string) list" where
  "mod_defs m = concat (map (loader_defs m) LOADERS)"

definition ext_defs :: "extension \<Rightarrow> (triple \<times> string) list" where
  "ext_defs e = concat (map mod_defs (mods e))"

definition all_defs :: "extension list \<Rightarrow> (triple \<times> string) list" where
  "all_defs extensions = concat (map ext_defs extensions)"

definition record_def :: "(triple \<times> mod_info) list \<Rightarrow> triple \<times> string \<Rightarrow> (triple \<times> mod_info) list" where
  "record_def mods_dict d =
     (case d of ((mname, loader, version), url) \<Rightarrow> record_url mods_dict mname loader version url)"

definition lookup_url :: "(string \<times> mod_entry) list \<Rightarrow> triple \<Rightarrow> string option" where
  "lookup_url result_mods t =
     (case t of (n, loader, version) \<Rightarrow>
        (case map_of result_mods n of
           None \<Rightarrow> None
         | Some m \<Rightarrow>
             (case map_of (loader_tables m) loader of
                None \<Rightarrow> None
              | Some loader_config \<Rightarrow> map_of loader_config version)))"

definition wf_result :: "(string \<times> mod_entry) list \<Rightarrow> bool" where
  "wf_result result_mods =
     (distinct (map fst result_mods)
      \<and> (\<forall>(n, m)\<in>set result_mods.
           name m = Some n \<and> distinct (map fst (loader_tables m))
           \<and> (\<forall>(loader, loader_config)\<in>set (loader_tables m).
                distinct (map fst loader_config))))"

text \<open>Every table of \<open>mods_dict\<close> repeats the triple it is stored under.\<close>

definition info_matches :: "(triple \<times> mod_info) list \<Rightarrow> bool" where
  "info_matches d =
     (\<forall>(k, i)\<in>set d. k = (info_name i, info_loader i, info_version i))"

section \<open>Installing resources in the sync flow (utils.py)\<close>









section \<open>Rewriting the manifests: \<open>update_pack_versions\<close> (build_extensions.py)\<close>

text \<open>
  The manifest is read and written as text, so here a \<open>str\<close> is the list of its code
  points, and \<open>ustr\<close> gives the code points of an ASCII literal. \<open>is_space\<close> is the white
  space of \<open>str.strip()\<close>: the characters 9 to 13, 28 to 31 and the blank, U+0085, U+00A0,
  U+1680, U+2000 to U+200A, U+2028, U+2029, U+202F, U+205F and U+3000. \<open>split_once s c\<close>
  is \<open>s.split(c, 1)\<close> for a separator of one character.
\<close>

type_synonym ustring = "nat list"

definition ustr :: "string \<Rightarrow> ustring" where
  "ustr s = map of_char s"

definition is_space :: "nat \<Rightarrow> bool" where
  "is_space c =
     (c \<in> set [9, 10, 11, 12, 13, 28, 29, 30, 31, 32, 133, 160, 5760]
      \<or> (8192 \<le> c \<and> c \<le> 8202)
      \<or> c \<in> set [8232, 8233, 8239, 8287, 12288])"

definition strip :: "ustring \<Rightarrow> ustring" where
  "strip s = rev (dropWhile is_space (rev (dropWhile is_space s)))"

definition split_once :: "ustring \<Rightarrow> nat \<Rightarrow> ustring list" where
  "split_once s sep =
     (if sep \<in> set s
      then [takeWhile (\<lambda>c. c \<noteq> sep) s, tl (dropWhile (\<lambda>c. c \<noteq> sep) s)]
      else [s])"

definition dquote :: ustring where
  "dquote = [34]"

definition newline :: ustring where
  "newline = [10]"

text \<open>
  The three tests a line has to pass, and the version they extract from it: the stripped
  line starts with \<open>version =\<close>, the line splits at its first \<open>=\<close> (code point 61), and
  what follows, stripped, starts and ends with a double quote; \<open>value[1:-1]\<close> is the
  version.
\<close>

definition current_version :: "ustring \<Rightarrow> ustring option" where
  "current_version line =
     (if startswith (strip line) (ustr ''version ='') then
        (case split_once line 61 of
           [key, rest] \<Rightarrow>
             (let val = strip rest in
              if startswith val dquote \<and> endswith val dquote then Some (butlast (tl val))
              else None)
         | _ \<Rightarrow> None)
      else None)"

text \<open>The line that is written: \<open>version = "<new_version>"\<close> and a newline.\<close>

definition version_line :: "ustring \<Rightarrow> ustring" where
  "version_line v = ustr ''version = '' @ dquote @ v @ dquote @ newline"

text \<open>
  The loop over the lines: the first line that passes the tests is replaced and the loop
  is left; \<open>None\<close> when no line was modified, and then the file is not written.
\<close>

fun rewrite_version :: "ustring \<Rightarrow> ustring list \<Rightarrow> ustring list option" where
  "rewrite_version suffix [] = None"
| "rewrite_version suffix (line # lines) =
     (case current_version line of
        Some v \<Rightarrow> Some (version_line (v @ suffix) # lines)
      | None \<Rightarrow> map_option ((#) line) (rewrite_version suffix lines))"

text \<open>
  Reading in text mode. \<open>open(path, "r")\<close> translates every line end of the file, CR LF,
  CR or LF (code points 13 and 10), to LF, and \<open>readlines\<close> cuts the text after every LF.
\<close>

fun universal_newlines :: "ustring \<Rightarrow> ustring" where
  "universal_newlines [] = []"
| "universal_newlines [c] = [if c = 13 then 10 else c]"
| "universal_newlines (c # d # cs) =
     (if c = 13 \<and> d = 10 then 10 # universal_newlines cs
      else if c = 13 then 10 # universal_newlines (d # cs)
      else c # universal_newlines (d # cs))"

fun split_lines :: "ustring \<Rightarrow> ustring list" where
  "split_lines [] = []"
| "split_lines (c # cs) =
     (if c = 10 then [c] # split_lines cs
      else (case split_lines cs of [] \<Rightarrow> [[c]] | l # ls \<Rightarrow> (c # l) # ls))"

definition readlines :: "ustring \<Rightarrow> ustring list" where
  "readlines content = split_lines (universal_newlines content)"

text \<open>
  Writing in text mode. \<open>open(path, "w")\<close> empties the file; \<open>writelines\<close> writes the
  lines one by one, each with its LF replaced by \<open>os.linesep\<close> and then encoded as UTF-8.
  A line with a code point that UTF-8 cannot encode (a surrogate, or a number that is no
  code point) raises: the lines written before it stay in the file, and the \<open>except\<close>
  clause turns the error into a warning. \<open>write_lines\<close> returns what the file holds
  afterwards and whether all lines were written.
\<close>

definition write_text :: "ustring \<Rightarrow> ustring \<Rightarrow> ustring" where
  "write_text linesep t = concat (map (\<lambda>c. if c = 10 then linesep else [c]) t)"

definition encodable :: "ustring \<Rightarrow> bool" where
  "encodable t = (\<forall>c\<in>set t. c < 55296 \<or> (57343 < c \<and> c < 1114112))"

fun write_lines :: "ustring \<Rightarrow> ustring list \<Rightarrow> ustring \<times> bool" where
  "write_lines linesep [] = ([], True)"
| "write_lines linesep (line # lines) =
     (if encodable (write_text linesep line)
      then (write_text linesep line @ fst (write_lines linesep lines),
            snd (write_lines linesep lines))
      else ([], False))"

text \<open>
  The directory tree under the base directory, as \<open>os.listdir\<close>, \<open>os.path.isdir\<close> and
  \<open>os.path.isfile\<close> show it: a directory is the list of its entries, a file is its
  content, decoded; \<open>Unreadable\<close> is a file whose reading raises (it is not UTF-8, say),
  which the \<open>except\<close> clause turns into a warning.
\<close>

datatype node = File ustring | Unreadable | Dir "(string \<times> node) list"

definition update_pack_toml ::
  "ustring \<Rightarrow> ustring \<Rightarrow> (string \<times> node) list \<Rightarrow> (string \<times> node) list \<times> nat" where
  "update_pack_toml linesep suffix entries =
     (case map_of entries ''pack.toml'' of
        Some (File content) \<Rightarrow>
          (case rewrite_version suffix (readlines content) of
             Some lines \<Rightarrow>
               (AList.update ''pack.toml'' (File (fst (write_lines linesep lines))) entries,
                if snd (write_lines linesep lines) then 1 else 0)
           | None \<Rightarrow> (entries, 0))
      | _ \<Rightarrow> (entries, 0))"

definition update_version_dir :: "ustring \<Rightarrow> ustring \<Rightarrow> node \<Rightarrow> node \<times> nat" where
  "update_version_dir linesep suffix version_node =
     (case version_node of
        Dir entries \<Rightarrow>
          (Dir (fst (update_pack_toml linesep suffix entries)),
           snd (update_pack_toml linesep suffix entries))
      | _ \<Rightarrow> (version_node, 0))"

definition update_loader_dir :: "ustring \<Rightarrow> ustring \<Rightarrow> node \<Rightarrow> node \<times> nat" where
  "update_loader_dir linesep suffix loader_node =
     (case loader_node of
        Dir versions \<Rightarrow>
          (Dir (map (\<lambda>(version, v). (version, fst (update_version_dir linesep suffix v)))
                  versions),
           sum_list (map (\<lambda>(version, v). snd (update_version_dir linesep suffix v)) versions))
      | _ \<Rightarrow> (loader_node, 0))"

text \<open>
  \<open>update_pack_versions\<close>, on the entries of the base directory; \<open>linesep\<close> is the
  \<open>os.linesep\<close> of the platform.
\<close>

definition update_pack_versions ::
  "ustring \<Rightarrow> (string \<times> node) list \<Rightarrow> ustring \<Rightarrow> (string \<times> node) list \<times> nat" where
  "update_pack_versions linesep base_dir extension_suffix =
     (let suffix = ustr ''-'' @ extension_suffix in
      (map (\<lambda>(loader, l). (loader, fst (update_loader_dir linesep suffix l))) base_dir,
       sum_list (map (\<lambda>(loader, l). snd (update_loader_dir linesep suffix l)) base_dir)))"

text \<open>The manifest of a version directory: the entry \<open>base/loader/version/pack.toml\<close>.\<close>

definition subdir :: "(string \<times> node) list \<Rightarrow> string \<Rightarrow> (string \<times> node) list option" where
  "subdir entries nm = (case map_of entries nm of Some (Dir es) \<Rightarrow> Some es | _ \<Rightarrow> None)"

definition pack_toml_of :: "(string \<times> node) list \<Rightarrow> string \<Rightarrow> string \<Rightarrow> node option" where
  "pack_toml_of base_dir loader version =
     (case subdir base_dir loader of
        None \<Rightarrow> None
      | Some versions \<Rightarrow>
          (case subdir versions version of
             None \<Rightarrow> None
           | Some entries \<Rightarrow> map_of entries ''pack.toml''))"

section \<open>Properties of the string functions\<close>

lemma startswith_iff: "startswith s p \<longleftrightarrow> (\<exists>r. s = p @ r)"
  by (induction s p rule: startswith.induct) auto

lemma contains_iff: "contains s needle \<longleftrightarrow> (\<exists>a b. s = a @ needle @ b)"
proof (induction s)
  case Nil
  then show ?case by auto
next
  case (Cons c s)
  show ?case
  proof
    assume "contains (c # s) needle"
    then consider "startswith (c # s) needle" | "contains s needle" by auto
    then show "\<exists>a b. c # s = a @ needle @ b"
    proof cases
      case 1
      then obtain r where "c # s = needle @ r" by (auto simp: startswith_iff)
      then have "c # s = [] @ needle @ r" by simp
      then show ?thesis by blast
    next
      case 2
      with Cons obtain a b where "s = a @ needle @ b" by blast
      then have "c # s = (c # a) @ needle @ b" by simp
      then show ?thesis by blast
    qed
  next
    assume "\<exists>a b. c # s = a @ needle @ b"
    then obtain a b where ab: "c # s = a @ needle @ b" by blast
    show "contains (c # s) needle"
    proof (cases a)
      case Nil
      with ab have "startswith (c # s) needle" by (auto simp: startswith_iff)
      then show ?thesis by simp
    next
      case (Cons x a')
      with ab have "s = a' @ needle @ b" by simp
      with Cons.IH have "contains s needle" by blast
      then show ?thesis by simp
    qed
  qed
qed

section \<open>Properties of the executor\<close>

lemma attempt_loop_result:
  assumes "fst (attempt_loop run command cwd max_retries attempt tr) = Inr (success, attempts)"
    and "0 \<le> attempt"
  shows "if success
         then attempt < attempts \<and> attempts \<le> max_retries
                \<and> run (nat (attempts - 1)) = Completed 0
         else attempts = max_retries"
  using assms
proof (induction run command cwd max_retries attempt tr rule: attempt_loop.induct)
  case (1 run command cwd max_retries attempt tr)
  show ?case
  proof (cases "attempt < max_retries")
    case False
    with "1.prems" show ?thesis
      by (simp add: attempt_loop.simps [of run command cwd max_retries attempt tr])
  next
    case lt: True
    show ?thesis
    proof (cases "run (nat attempt) = Completed 0")
      case True
      with lt "1.prems" show ?thesis
        by (auto simp: attempt_loop.simps [of run command cwd max_retries attempt tr])
    next
      case ne: False
      show ?thesis
      proof (cases "after_attempt (run (nat attempt)) attempt max_retries")
        case (Inl e)
        with lt ne "1.prems" show ?thesis
          by (simp add: attempt_loop.simps [of run command cwd max_retries attempt tr])
      next
        case (Inr d)
        show ?thesis
        proof (cases d)
          case None
          with Inr lt ne "1.prems"
          have "fst (attempt_loop run command cwd max_retries (attempt + 1)
                  (tr @ [Invoke command cwd])) = Inr (success, attempts)"
            by (simp add: attempt_loop.simps [of run command cwd max_retries attempt tr])
          with "1.IH"(1) [OF lt refl refl ne Inr None] "1.prems"(2) show ?thesis
            by (auto split: if_splits)
        next
          case (Some x)
          with Inr lt ne "1.prems"
          have "fst (attempt_loop run command cwd max_retries (attempt + 1)
                  ((tr @ [Invoke command cwd]) @ [Sleep x])) = Inr (success, attempts)"
            by (simp add: attempt_loop.simps [of run command cwd max_retries attempt tr])
          with "1.IH"(2) [OF lt refl refl ne Inr Some] "1.prems"(2) show ?thesis
            by (auto split: if_splits)
        qed
      qed
    qed
  qed
qed

lemma attempt_loop_done:
  "\<not> attempt < max_retries \<Longrightarrow>
     attempt_loop run command cwd max_retries attempt tr = (Inr (False, max_retries), tr)"
  by (simp add: attempt_loop.simps [of run command cwd max_retries attempt tr])

lemma attempt_loop_success:
  "attempt < max_retries \<Longrightarrow> run (nat attempt) = Completed 0 \<Longrightarrow>
     attempt_loop run command cwd max_retries attempt tr
       = (Inr (True, attempt + 1), tr @ [Invoke command cwd])"
  by (simp add: attempt_loop.simps [of run command cwd max_retries attempt tr])

lemma attempt_loop_retry:
  "attempt < max_retries \<Longrightarrow> run (nat attempt) \<noteq> Completed 0 \<Longrightarrow>
     after_attempt (run (nat attempt)) attempt max_retries = Inr d \<Longrightarrow>
     attempt_loop run command cwd max_retries attempt tr
       = attempt_loop run command cwd max_retries (attempt + 1)
           (tr @ [Invoke command cwd] @ (case d of None \<Rightarrow> [] | Some s \<Rightarrow> [Sleep s]))"
  by (simp add: attempt_loop.simps [of run command cwd max_retries attempt tr] split: option.splits)

lemma after_attempt_3:
  "after_attempt r 0 3 = Inr (Some 1)" "after_attempt r 1 3 = Inr (Some 3)"
  "after_attempt r 2 3 = Inr None"
  by (simp_all add: after_attempt_def backoff_def retry_delays_def split: run_result.splits)

text \<open>
  C2 (as amended). For a call whose target directory exists, made with the 3 attempts the
  executor uses: the tool is invoked at most 3 times; an attempt that ends with a non-zero
  exit code, with a raised exception or with the timeout is a failed attempt and the next one
  follows; the delay is 1 before the second attempt and 3 before the third, and nothing
  follows the third attempt (the third entry of the table, 9, is never slept). A call whose
  first two attempts fail and whose third succeeds returns success with 3 attempts; a call
  whose attempts all fail returns failure with 3 attempts.
\<close>

theorem three_attempts_backoff:
  assumes "isdir version_path"
  shows "add_mod_to_version isdir run version_path mod_url platform 3 =
     (let inv = Invoke (add_command platform mod_url) version_path in
      if run 0 = Completed 0 then (Inr (True, 1), [inv])
      else if run 1 = Completed 0 then (Inr (True, 2), [inv, Sleep 1, inv])
      else if run 2 = Completed 0 then (Inr (True, 3), [inv, Sleep 1, inv, Sleep 3, inv])
      else (Inr (False, 3), [inv, Sleep 1, inv, Sleep 3, inv]))"
proof -
  let ?c = "add_command platform mod_url"
  let ?inv = "Invoke ?c version_path"
  have start: "add_mod_to_version isdir run version_path mod_url platform 3
      = attempt_loop run ?c version_path 3 0 []"
    using assms by (simp add: add_mod_to_version_def add_command_def)
  have r0: "run 0 \<noteq> Completed 0 \<Longrightarrow> attempt_loop run ?c version_path 3 0 []
      = attempt_loop run ?c version_path 3 1 [?inv, Sleep 1]"
    using attempt_loop_retry [of 0 3 run "Some 1" ?c version_path "[]"]
    by (simp add: after_attempt_3)
  have r1: "run 1 \<noteq> Completed 0 \<Longrightarrow> attempt_loop run ?c version_path 3 1 [?inv, Sleep 1]
      = attempt_loop run ?c version_path 3 2 [?inv, Sleep 1, ?inv, Sleep 3]"
    using attempt_loop_retry [of 1 3 run "Some 3" ?c version_path "[?inv, Sleep 1]"]
    by (simp add: after_attempt_3)
  have r2: "run 2 \<noteq> Completed 0 \<Longrightarrow>
      attempt_loop run ?c version_path 3 2 [?inv, Sleep 1, ?inv, Sleep 3]
      = attempt_loop run ?c version_path 3 3 [?inv, Sleep 1, ?inv, Sleep 3, ?inv]"
    using attempt_loop_retry [of 2 3 run None ?c version_path "[?inv, Sleep 1, ?inv, Sleep 3]"]
    by (simp add: after_attempt_3)
  have s0: "run 0 = Completed 0 \<Longrightarrow> attempt_loop run ?c version_path 3 0 []
      = (Inr (True, 1), [?inv])"
    using attempt_loop_success [of 0 3 run ?c version_path "[]"] by simp
  have s1: "run 1 = Completed 0 \<Longrightarrow> attempt_loop run ?c version_path 3 1 [?inv, Sleep 1]
      = (Inr (True, 2), [?inv, Sleep 1, ?inv])"
    using attempt_loop_success [of 1 3 run ?c version_path "[?inv, Sleep 1]"] by simp
  have s2: "run 2 = Completed 0 \<Longrightarrow>
      attempt_loop run ?c version_path 3 2 [?inv, Sleep 1, ?inv, Sleep 3]
      = (Inr (True, 3), [?inv, Sleep 1, ?inv, Sleep 3, ?inv])"
    using attempt_loop_success [of 2 3 run ?c version_path "[?inv, Sleep 1, ?inv, Sleep 3]"]
    by simp
  have d3: "attempt_loop run ?c version_path 3 3 [?inv, Sleep 1, ?inv, Sleep 3, ?inv]
      = (Inr (False, 3), [?inv, Sleep 1, ?inv, Sleep 3, ?inv])"
    by (simp add: attempt_loop_done)
  show ?thesis
    unfolding start Let_def using r0 r1 r2 s0 s1 s2 d3 by simp
qed

theorem three_attempts_backoff_witness:
  "(\<lambda>p. True) ''v'' \<and>
   add_mod_to_version (\<lambda>p. True) (\<lambda>k. if k < 2 then TimedOut else Completed 0)
      ''v'' ''u'' ''modrinth'' 3
    = (Inr (True, 3),
       [Invoke ''packwiz mr add u --yes'' ''v'', Sleep 1,
        Invoke ''packwiz mr add u --yes'' ''v'', Sleep 3,
        Invoke ''packwiz mr add u --yes'' ''v''])"
  using three_attempts_backoff [of "\<lambda>p. True" "''v''"
      "\<lambda>k. if k < 2 then TimedOut else Completed 0" "''u''" "''modrinth''"]
  by (simp add: add_command_def Let_def)

text \<open>
  C2 as stated does not hold: in a call whose three attempts all fail, the delays slept are
  1 and 3, not the three entries 1, 3, 9 of the table.
\<close>

theorem delay_nine_never_applied:
  "delays_of (snd (add_mod_to_version (\<lambda>p. True) (\<lambda>k. Completed 1)
      ''v'' ''u'' ''modrinth'' 3)) = [1, 3] \<and>
   delays_of (snd (add_mod_to_version (\<lambda>p. True) (\<lambda>k. Completed 1)
      ''v'' ''u'' ''modrinth'' 3)) \<noteq> retry_delays"
  by (simp add: add_mod_to_version_def attempt_loop.simps after_attempt_def backoff_def
      retry_delays_def Let_def)

text \<open>
  C10 (as amended). For a call with \<open>max_retries \<noteq> 0\<close> that returns: the attempts count
  is 0 exactly when the target directory does not exist; on success it is the number of the
  attempt that exited with code 0, between 1 and \<open>max_retries\<close>; on failure with an existing
  directory it is \<open>max_retries\<close>.
\<close>

theorem returned_attempts_count:
  assumes "max_retries \<noteq> 0"
    and "fst (add_mod_to_version isdir run version_path mod_url platform max_retries)
           = Inr (success, attempts)"
  shows "(attempts = 0 \<longleftrightarrow> \<not> isdir version_path) \<and>
         (success \<longrightarrow> 1 \<le> attempts \<and> attempts \<le> max_retries
                        \<and> run (nat (attempts - 1)) = Completed 0) \<and>
         (\<not> success \<and> isdir version_path \<longrightarrow> attempts = max_retries)"
proof (cases "isdir version_path")
  case False
  with assms(2) show ?thesis by (simp add: add_mod_to_version_def)
next
  case True
  with assms(2) have "fst (attempt_loop run (add_command platform mod_url) version_path
      max_retries 0 []) = Inr (success, attempts)"
    by (simp add: add_mod_to_version_def add_command_def)
  from attempt_loop_result [OF this] True assms(1) show ?thesis
    by (auto split: if_splits)
qed

theorem returned_attempts_count_witness:
  "(4::int) \<noteq> 0
   \<and> fst (add_mod_to_version (\<lambda>p. True) (\<lambda>k. if k < 3 then Raised else Completed 0)
        ''v'' ''u'' ''curseforge'' 4) = Inr (True, 4)
   \<and> (\<lambda>p. True) ''v'' \<and> (1::int) \<le> 4 \<and> (4::int) \<le> 4
   \<and> (\<lambda>k. if k < 3 then Raised else Completed 0) (nat (4 - 1)) = Completed 0"
  using returned_attempts_count [of 4 "\<lambda>p. True" "\<lambda>k. if k < 3 then Raised else Completed 0"
      "''v''" "''u''" "''curseforge''" True 4]
  by (simp add: add_mod_to_version_def attempt_loop.simps after_attempt_def backoff_def
      retry_delays_def Let_def)

text \<open>
  C10 as stated does not hold for \<open>max_retries = 0\<close>: the loop body never runs and the call
  returns 0 attempts although the target directory exists.
\<close>

theorem zero_retries_existing_directory:
  "add_mod_to_version (\<lambda>p. True) (\<lambda>k. Completed 0) ''v'' ''u'' ''modrinth'' 0
     = (Inr (False, 0), []) \<and> (\<lambda>p. True) ''v''"
  by (simp add: add_mod_to_version_def attempt_loop.simps)

text \<open>
  With more than four attempts allowed the table of delays is too short: the fourth failed
  attempt looks up \<open>retry_delays[3]\<close>, first in the \<open>try\<close> block and then again in the
  handler, and the second \<open>IndexError\<close> leaves the function.
\<close>

lemma five_attempts_raise:
  "fst (add_mod_to_version (\<lambda>p. True) (\<lambda>k. Completed 1) ''v'' ''u'' ''modrinth'' 5)
     = Inl IndexError"
  by (simp add: add_mod_to_version_def attempt_loop.simps after_attempt_def backoff_def
      retry_delays_def Let_def)

text \<open>
  C3. A work item whose target directory does not exist when it is executed: the call of
  \<open>add_mod_to_version\<close> returns failure with 0 attempts and does nothing (no invocation
  of the external tool, no delay, whatever \<open>max_retries\<close> is and whatever the tool would
  have answered), and the loop over the completed tasks records the item in the report
  under its key.
\<close>

theorem missing_directory_zero_attempts:
  assumes "\<not> isdir (task_version_path t)"
  shows "add_mod_to_version isdir run (task_version_path t) (task_url t) (task_platform t)
           max_retries = (Inr (False, 0), [])
       \<and> install_task isdir run t = Inr (False, 0)
       \<and> collect_failed ((t, install_task isdir run t) # rest) failed
           = collect_failed rest (append_failed (task_key t) (task_name t) failed)"
  using assms by (simp add: add_mod_to_version_def install_task_def)

theorem missing_directory_zero_attempts_witness:
  "\<not> (\<lambda>p. p = ''b/fabric/1.20'')
        (task_version_path \<lparr>task_name = ''Lithium'', task_loader = ''forge'',
           task_version = ''1.19'', task_url = ''u3'', task_platform = ''modrinth'',
           task_version_path = ''b/forge/1.19''\<rparr>)
   \<and> add_mod_to_version (\<lambda>p. p = ''b/fabric/1.20'') (\<lambda>k. Completed 0)
        ''b/forge/1.19'' ''u3'' ''modrinth'' 3 = (Inr (False, 0), [])
   \<and> collect_failed
        [(\<lparr>task_name = ''Lithium'', task_loader = ''forge'',
           task_version = ''1.19'', task_url = ''u3'', task_platform = ''modrinth'',
           task_version_path = ''b/forge/1.19''\<rparr>,
          install_task (\<lambda>p. p = ''b/fabric/1.20'') (\<lambda>k. Completed 0)
            \<lparr>task_name = ''Lithium'', task_loader = ''forge'',
             task_version = ''1.19'', task_url = ''u3'', task_platform = ''modrinth'',
             task_version_path = ''b/forge/1.19''\<rparr>)] []
       = Inr [(''forge/1.19'', [''Lithium''])]"
  using missing_directory_zero_attempts
    [of "\<lambda>p. p = ''b/fabric/1.20''"
        "\<lparr>task_name = ''Lithium'', task_loader = ''forge'',
           task_version = ''1.19'', task_url = ''u3'', task_platform = ''modrinth'',
           task_version_path = ''b/forge/1.19''\<rparr>" "\<lambda>k. Completed 0" 3 "[]" "[]"]
  by (simp add: append_failed_def task_key_def)

section \<open>Properties of the merge\<close>

lemma foldl_concat: "foldl f a (concat xss) = foldl (foldl f) a xss"
  by (induction xss arbitrary: a) simp_all

lemma merge_loader_defs: "merge_loader d m loader = foldl record_def d (loader_defs m loader)"
proof (cases "map_of (loader_tables m) loader")
  case None
  then show ?thesis by (simp add: merge_loader_def loader_defs_def)
next
  case (Some loader_config)
  have "foldl (\<lambda>d (version, url). record_url d (mod_name m) loader version url) d cfg
      = foldl record_def d (map (\<lambda>(version, url). ((mod_name m, loader, version), url)) cfg)"
    for cfg
    by (induction cfg arbitrary: d) (auto simp: record_def_def)
  with Some show ?thesis by (simp add: merge_loader_def loader_defs_def)
qed

lemma merge_mod_defs: "merge_mod d m = foldl record_def d (mod_defs m)"
proof -
  have "foldl (\<lambda>d loader. merge_loader d m loader) d ls
      = foldl record_def d (concat (map (loader_defs m) ls))" for ls
    by (induction ls arbitrary: d) (simp_all add: merge_loader_defs)
  then show ?thesis by (simp add: merge_mod_def mod_defs_def)
qed

lemma merge_extension_defs: "merge_extension d e = foldl record_def d (ext_defs e)"
proof -
  have "foldl merge_mod d ms = foldl record_def d (concat (map mod_defs ms))" for ms
    by (induction ms arbitrary: d) (simp_all add: merge_mod_defs)
  then show ?thesis by (simp add: merge_extension_def ext_defs_def)
qed

lemma collect_mods_defs: "collect_mods extensions = foldl record_def [] (all_defs extensions)"
proof -
  have "foldl merge_extension d es = foldl record_def d (concat (map ext_defs es))" for d es
    by (induction es arbitrary: d) (simp_all add: merge_extension_defs)
  then show ?thesis by (simp add: collect_mods_def all_defs_def)
qed

lemma record_def_url:
  "map_option info_url (map_of (record_def d (k, u)) k')
     = (if k' = k then Some u else map_option info_url (map_of d k'))"
  by (cases k) (auto simp: record_def_def record_url_def Let_def update_conv' split: option.splits)

lemma record_def_keys:
  "map fst (record_def d (k, u)) = (if k \<in> set (map fst d) then map fst d else map fst d @ [k])"
  by (cases k) (auto simp: record_def_def record_url_def Let_def update_keys split: option.splits)

lemma record_def_distinct: "distinct (map fst d) \<Longrightarrow> distinct (map fst (record_def d x))"
  by (cases x) (auto simp: record_def_keys)

lemma foldl_record_def_distinct:
  "distinct (map fst d) \<Longrightarrow> distinct (map fst (foldl record_def d defs))"
  by (induction defs arbitrary: d) (simp_all add: record_def_distinct)

lemma map_of_snoc:
  "map_of (xs @ [(k, v)]) k' = (case map_of xs k' of Some w \<Rightarrow> Some w | None \<Rightarrow> if k' = k then Some v else None)"
  by (induction xs) auto

lemma foldl_record_def_url:
  "map_option info_url (map_of (foldl record_def d defs) k)
     = (case map_of (rev defs) k of
          Some u \<Rightarrow> Some u
        | None \<Rightarrow> map_option info_url (map_of d k))"
proof (induction defs arbitrary: d)
  case Nil
  then show ?case by simp
next
  case (Cons x defs)
  obtain k' u where x: "x = (k', u)" by (cases x)
  have s: "map_of (rev (x # defs)) k
      = (case map_of (rev defs) k of Some w \<Rightarrow> Some w
         | None \<Rightarrow> if k = k' then Some u else None)"
    unfolding x by (simp only: rev.simps map_of_snoc)
  have f: "foldl record_def d (x # defs) = foldl record_def (record_def d (k', u)) defs"
    by (simp add: x)
  show ?case
    unfolding f s Cons.IH record_def_url by (simp split: option.splits)
qed


lemma in_update_cases:
  assumes "distinct (map fst al)" and "(k', x) \<in> set (AList.update k v al)"
  shows "(k' = k \<and> x = v) \<or> (k' \<noteq> k \<and> (k', x) \<in> set al)"
proof -
  from assms(1) have "distinct (map fst (AList.update k v al))" by (rule distinct_update)
  with assms(2) have "map_of (AList.update k v al) k' = Some x" by simp
  then have "((map_of al)(k \<mapsto> v)) k' = Some x" by (simp add: update_conv')
  with assms(1) show ?thesis by (auto split: if_splits)
qed

lemma lookup_url_place_mod:
  "lookup_url (place_mod result_mods (k, info)) t
     = (if t = k then Some (info_url info) else lookup_url result_mods t)"
proof -
  obtain n l v where k: "k = (n, l, v)" by (cases k)
  obtain n' l' v' where t: "t = (n', l', v')" by (cases t)
  show ?thesis
    unfolding k t
    by (auto simp: place_mod_def lookup_url_def Let_def update_conv' split: option.splits)
qed

lemma lookup_url_foldl_place_mod:
  "lookup_url (foldl place_mod result_mods items) t
     = (case map_of (rev items) t of
          Some info \<Rightarrow> Some (info_url info)
        | None \<Rightarrow> lookup_url result_mods t)"
proof (induction items arbitrary: result_mods)
  case Nil
  then show ?case by simp
next
  case (Cons x items)
  obtain k info where x: "x = (k, info)" by (cases x)
  have s: "map_of (rev (x # items)) t
      = (case map_of (rev items) t of Some w \<Rightarrow> Some w
         | None \<Rightarrow> if t = k then Some info else None)"
    unfolding x by (simp only: rev.simps map_of_snoc)
  have f: "foldl place_mod result_mods (x # items)
      = foldl place_mod (place_mod result_mods (k, info)) items"
    by (simp add: x)
  show ?case
    unfolding f s Cons.IH lookup_url_place_mod by (simp split: option.splits)
qed

lemma wf_result_place_mod:
  assumes "wf_result result_mods"
  shows "wf_result (place_mod result_mods (k, info))"
proof -
  obtain n l v where k: "k = (n, l, v)" by (cases k)
  define m where "m = (case map_of result_mods n of
      None \<Rightarrow> \<lparr>name = Some n, loader_tables = []\<rparr> | Some m \<Rightarrow> m)"
  define cfg where "cfg = (case map_of (loader_tables m) l of None \<Rightarrow> [] | Some c \<Rightarrow> c)"
  define m' where "m' = m\<lparr>loader_tables :=
      AList.update l (AList.update v (info_url info) cfg) (loader_tables m)\<rparr>"
  have pm: "place_mod result_mods (k, info) = AList.update n m' result_mods"
    by (simp add: place_mod_def k m_def cfg_def m'_def Let_def)
  from assms have d: "distinct (map fst result_mods)"
    and each: "\<And>n0 m0. (n0, m0) \<in> set result_mods \<Longrightarrow>
        name m0 = Some n0 \<and> distinct (map fst (loader_tables m0))
        \<and> (\<forall>(loader, loader_config)\<in>set (loader_tables m0). distinct (map fst loader_config))"
    by (auto simp: wf_result_def)
  have m: "name m = Some n \<and> distinct (map fst (loader_tables m))
        \<and> (\<forall>(loader, loader_config)\<in>set (loader_tables m). distinct (map fst loader_config))"
  proof (cases "map_of result_mods n")
    case None
    then show ?thesis by (simp add: m_def)
  next
    case (Some m0)
    then have "(n, m0) \<in> set result_mods" by (rule map_of_SomeD)
    from each [OF this] Some show ?thesis by (simp add: m_def)
  qed
  have cfg: "distinct (map fst cfg)"
  proof (cases "map_of (loader_tables m) l")
    case None
    then show ?thesis by (simp add: cfg_def)
  next
    case (Some c)
    then have "(l, c) \<in> set (loader_tables m)" by (rule map_of_SomeD)
    with m Some show ?thesis by (auto simp: cfg_def)
  qed
  have m': "name m' = Some n \<and> distinct (map fst (loader_tables m'))
        \<and> (\<forall>(loader, loader_config)\<in>set (loader_tables m'). distinct (map fst loader_config))"
  proof (intro conjI)
    show "name m' = Some n" using m by (simp add: m'_def)
    show "distinct (map fst (loader_tables m'))"
      using m by (simp add: m'_def distinct_update)
    show "\<forall>(loader, loader_config)\<in>set (loader_tables m'). distinct (map fst loader_config)"
    proof (clarify)
      fix l0 c0 assume "(l0, c0) \<in> set (loader_tables m')"
      then have "(l0, c0) \<in> set (AList.update l (AList.update v (info_url info) cfg)
          (loader_tables m))" by (simp add: m'_def)
      from in_update_cases [OF _ this] m
      have "c0 = AList.update v (info_url info) cfg \<or> (l0, c0) \<in> set (loader_tables m)"
        by blast
      with m cfg show "distinct (map fst c0)" by (auto simp: distinct_update)
    qed
  qed
  show ?thesis
    unfolding pm wf_result_def
  proof (intro conjI)
    show "distinct (map fst (AList.update n m' result_mods))"
      using d by (rule distinct_update)
    show "\<forall>(n, m)\<in>set (AList.update n m' result_mods).
        name m = Some n \<and> distinct (map fst (loader_tables m))
        \<and> (\<forall>(loader, loader_config)\<in>set (loader_tables m). distinct (map fst loader_config))"
    proof (clarify)
      fix n0 m0 assume "(n0, m0) \<in> set (AList.update n m' result_mods)"
      from in_update_cases [OF d this]
      have "(n0 = n \<and> m0 = m') \<or> (n0, m0) \<in> set result_mods" by blast
      with m' each [of n0 m0]
      show "name m0 = Some n0 \<and> distinct (map fst (loader_tables m0))
        \<and> (\<forall>(loader, loader_config)\<in>set (loader_tables m0). distinct (map fst loader_config))"
        by blast
    qed
  qed
qed

lemma wf_result_foldl_place_mod:
  "wf_result result_mods \<Longrightarrow> wf_result (foldl place_mod result_mods items)"
proof (induction items arbitrary: result_mods)
  case Nil
  then show ?case by simp
next
  case (Cons x items)
  obtain k info where x: "x = (k, info)" by (cases x)
  from Cons.prems have "wf_result (place_mod result_mods (k, info))"
    by (rule wf_result_place_mod)
  from Cons.IH [OF this] show ?case by (simp add: x)
qed


lemma filter_key_distinct:
  "distinct (map fst al) \<Longrightarrow>
     map snd (filter (\<lambda>(k', x). k' = k) al) = (case map_of al k of None \<Rightarrow> [] | Some x \<Rightarrow> [x])"
proof (induction al)
  case Nil
  then show ?case by simp
next
  case (Cons p al)
  obtain k' x where p: "p = (k', x)" by (cases p)
  show ?case
  proof (cases "k' = k")
    case True
    with Cons.prems p have "k \<notin> fst ` set al" by auto
    then have "filter (\<lambda>(k', x). k' = k) al = []"
      by (force simp: filter_empty_conv)
    with True p show ?thesis by simp
  next
    case False
    with Cons p show ?thesis by simp
  qed
qed

lemma concat_key_distinct:
  "distinct (map fst al) \<Longrightarrow>
     concat (map (\<lambda>(k', x). if k' = k then f x else []) al)
       = (case map_of al k of None \<Rightarrow> [] | Some x \<Rightarrow> f x)"
proof (induction al)
  case Nil
  then show ?case by simp
next
  case (Cons p al)
  obtain k' x where p: "p = (k', x)" by (cases p)
  show ?case
  proof (cases "k' = k")
    case True
    with Cons.prems p have "k \<notin> fst ` set al" by auto
    then have "map_of al k = None" by (simp add: map_of_eq_None_iff)
    with Cons True p show ?thesis by simp
  next
    case False
    with Cons p show ?thesis by simp
  qed
qed

lemma merged_urls_lookup:
  assumes "wf_result result_mods"
  shows "merged_urls (map snd result_mods) t
           = (case lookup_url result_mods t of None \<Rightarrow> [] | Some u \<Rightarrow> [u])"
proof -
  obtain n l v where t: "t = (n, l, v)" by (cases t)
  let ?g = "\<lambda>m. concat (map (\<lambda>(l', loader_config).
                 if l' = l then map snd (filter (\<lambda>(v', u). v' = v) loader_config) else [])
               (loader_tables m))"
  from assms have d: "distinct (map fst result_mods)"
    and each: "\<And>n0 m0. (n0, m0) \<in> set result_mods \<Longrightarrow>
        name m0 = Some n0 \<and> distinct (map fst (loader_tables m0))
        \<and> (\<forall>(loader, loader_config)\<in>set (loader_tables m0). distinct (map fst loader_config))"
    by (auto simp: wf_result_def)
  have "merged_urls (map snd result_mods) t
      = concat (map (\<lambda>(n0, m0). if n0 = n then ?g m0 else []) result_mods)"
    unfolding merged_urls_def t prod.case map_map
    by (rule arg_cong [where f = concat], rule map_cong [OF refl])
       (use each in \<open>auto simp: mod_name_def\<close>)
  also have "\<dots> = (case map_of result_mods n of None \<Rightarrow> [] | Some m0 \<Rightarrow> ?g m0)"
    using d by (rule concat_key_distinct)
  also have "\<dots> = (case lookup_url result_mods t of None \<Rightarrow> [] | Some u \<Rightarrow> [u])"
  proof (cases "map_of result_mods n")
    case None
    then show ?thesis by (simp add: lookup_url_def t)
  next
    case (Some m0)
    then have "(n, m0) \<in> set result_mods" by (rule map_of_SomeD)
    from each [OF this] have dt: "distinct (map fst (loader_tables m0))"
      and dc: "\<And>l0 c0. (l0, c0) \<in> set (loader_tables m0) \<Longrightarrow> distinct (map fst c0)"
      by auto
    have "?g m0 = (case map_of (loader_tables m0) l of None \<Rightarrow> []
        | Some c \<Rightarrow> map snd (filter (\<lambda>(v', u). v' = v) c))"
      using dt by (rule concat_key_distinct)
    also have "\<dots> = (case map_of (loader_tables m0) l of None \<Rightarrow> []
        | Some c \<Rightarrow> (case map_of c v of None \<Rightarrow> [] | Some u \<Rightarrow> [u]))"
    proof (cases "map_of (loader_tables m0) l")
      case None
      then show ?thesis by simp
    next
      case (Some c)
      then have "(l, c) \<in> set (loader_tables m0)" by (rule map_of_SomeD)
      from filter_key_distinct [OF dc [OF this]] Some show ?thesis by simp
    qed
    finally show ?thesis using Some by (simp add: lookup_url_def t split: option.splits)
  qed
  finally show ?thesis .
qed

lemma map_of_rev_distinct: "distinct (map fst xs) \<Longrightarrow> map_of (rev xs) = map_of xs"
  by (subst map_of_inject_set) (simp_all add: rev_map [symmetric])

lemma merged_urls_all_defs:
  "merged_urls (merge_mods extensions) t
     = (case map_of (rev (all_defs extensions)) t of None \<Rightarrow> [] | Some u \<Rightarrow> [u])"
proof -
  let ?D = "collect_mods extensions"
  let ?R = "foldl place_mod [] ?D"
  have wf: "wf_result ?R"
    by (rule wf_result_foldl_place_mod) (simp add: wf_result_def)
  have dD: "distinct (map fst ?D)"
    unfolding collect_mods_defs by (rule foldl_record_def_distinct) simp
  have empty: "lookup_url [] t = None"
    by (cases t) (simp add: lookup_url_def)
  have "lookup_url ?R t = map_option info_url (map_of (rev ?D) t)"
    unfolding lookup_url_foldl_place_mod empty by (simp split: option.splits)
  also have "\<dots> = map_option info_url (map_of ?D t)"
    using dD by (simp add: map_of_rev_distinct)
  also have "\<dots> = map_of (rev (all_defs extensions)) t"
    unfolding collect_mods_defs foldl_record_def_url by (simp split: option.splits)
  finally have "lookup_url ?R t = map_of (rev (all_defs extensions)) t" .
  with merged_urls_lookup [OF wf, of t] show ?thesis
    by (simp add: merge_mods_def)
qed


lemma map_of_append_cases:
  "map_of (xs @ ys) k = (case map_of xs k of Some v \<Rightarrow> Some v | None \<Rightarrow> map_of ys k)"
  by (simp add: map_add_def split: option.splits)

lemma map_of_rev_concat_map:
  "map_of (rev (concat (map f xs))) k
     = (case filter (\<lambda>x. map_of (rev (f x)) k \<noteq> None) xs of
          [] \<Rightarrow> None
        | ys \<Rightarrow> map_of (rev (f (last ys))) k)"
proof (induction xs rule: rev_induct)
  case Nil
  then show ?case by simp
next
  case (snoc x xs)
  have r: "map_of (rev (concat (map f (xs @ [x])))) k
      = (case map_of (rev (f x)) k of Some v \<Rightarrow> Some v
         | None \<Rightarrow> map_of (rev (concat (map f xs))) k)"
    by (simp add: map_add_def split: option.splits)
  show ?case
  proof (cases "map_of (rev (f x)) k")
    case None
    with r snoc show ?thesis by simp
  next
    case (Some v)
    then have fe: "filter (\<lambda>x. map_of (rev (f x)) k \<noteq> None) (xs @ [x])
        = filter (\<lambda>x. map_of (rev (f x)) k \<noteq> None) xs @ [x]" by simp
    have c: "(case ys @ [x] of [] \<Rightarrow> None | a # l \<Rightarrow> map_of (rev (f (last (a # l)))) k)
        = map_of (rev (f x)) k" for ys
      by (cases ys) simp_all
    show ?thesis unfolding r fe c by (simp add: Some)
  qed
qed

lemma map_of_tagged:
  "map_of (map (\<lambda>(v, u). ((a, b, v), u)) xs) (n, l, v')
     = (if a = n \<and> b = l then map_of xs v' else None)"
  by (induction xs) auto

lemma loader_defs_lookup:
  assumes "\<forall>(loader, loader_config)\<in>set (loader_tables m). distinct (map fst loader_config)"
  shows "map_of (rev (loader_defs m l')) (n, l, v)
           = (if l' = l \<and> mod_name m = n
              then (case map_of (loader_tables m) l of
                      None \<Rightarrow> None | Some loader_config \<Rightarrow> map_of loader_config v)
              else None)"
proof (cases "map_of (loader_tables m) l'")
  case None
  then show ?thesis by (auto simp: loader_defs_def)
next
  case (Some c)
  then have "(l', c) \<in> set (loader_tables m)" by (rule map_of_SomeD)
  with assms have "distinct (map fst c)" by auto
  then have "map_of (rev c) = map_of c" by (rule map_of_rev_distinct)
  with Some show ?thesis
    by (auto simp: loader_defs_def rev_map map_of_tagged)
qed

lemma mod_defs_lookup:
  assumes "\<forall>(loader, loader_config)\<in>set (loader_tables m). distinct (map fst loader_config)"
  shows "map_of (rev (mod_defs m)) t = entry_url m t"
proof -
  obtain n l v where t: "t = (n, l, v)" by (cases t)
  show ?thesis
    unfolding t mod_defs_def map_of_rev_concat_map loader_defs_lookup [OF assms]
    by (auto simp: entry_url_def LOADERS_def split: option.splits)
qed

lemma ext_defs_lookup:
  assumes "wf_descriptor e"
  shows "map_of (rev (ext_defs e)) t = descriptor_url e t"
proof -
  have m: "map_of (rev (mod_defs m)) t = entry_url m t" if "m \<in> set (mods e)" for m
    using assms that by (intro mod_defs_lookup) (auto simp: wf_descriptor_def)
  then have f: "filter (\<lambda>m. map_of (rev (mod_defs m)) t \<noteq> None) (mods e)
      = filter (\<lambda>m. entry_url m t \<noteq> None) (mods e)"
    by (intro filter_cong) auto
  show ?thesis
  proof (cases "filter (\<lambda>m. entry_url m t \<noteq> None) (mods e)")
    case Nil
    with f show ?thesis
      by (simp add: ext_defs_def map_of_rev_concat_map descriptor_url_def)
  next
    case (Cons a ms)
    then have "last (a # ms) \<in> set (filter (\<lambda>m. entry_url m t \<noteq> None) (mods e))"
      by (metis last_in_set list.distinct(1))
    then have "last (a # ms) \<in> set (mods e)" by simp
    from m [OF this] f Cons show ?thesis
      by (simp add: ext_defs_def map_of_rev_concat_map descriptor_url_def)
  qed
qed

lemma all_defs_lookup:
  assumes "\<forall>e\<in>set extensions. wf_descriptor e"
  shows "map_of (rev (all_defs extensions)) t = last_writer extensions t"
proof -
  have m: "map_of (rev (ext_defs e)) t = descriptor_url e t" if "e \<in> set extensions" for e
    using assms that by (intro ext_defs_lookup) auto
  then have f: "filter (\<lambda>e. map_of (rev (ext_defs e)) t \<noteq> None) extensions
      = filter (\<lambda>e. descriptor_url e t \<noteq> None) extensions"
    by (intro filter_cong) auto
  show ?thesis
  proof (cases "filter (\<lambda>e. descriptor_url e t \<noteq> None) extensions")
    case Nil
    with f show ?thesis
      by (simp add: all_defs_def map_of_rev_concat_map last_writer_def)
  next
    case (Cons a es)
    then have "last (a # es) \<in> set (filter (\<lambda>e. descriptor_url e t \<noteq> None) extensions)"
      by (metis last_in_set list.distinct(1))
    then have "last (a # es) \<in> set extensions" by simp
    from m [OF this] f Cons show ?thesis
      by (simp add: all_defs_def map_of_rev_concat_map last_writer_def)
  qed
qed

text \<open>
  C1. For descriptors whose tables have every key once, and for every triple of mod name,
  loader and version: the merged set holds exactly one URL for the triple when some
  descriptor defines it, the URL of the last descriptor in input order that defines it,
  and none otherwise. So a triple that only one descriptor defines keeps that descriptor's
  URL, and every triple that some descriptor defines is kept, whether or not other
  descriptors define other loaders or versions of the same mod.
\<close>

theorem merge_mods_last_writer_wins:
  assumes "\<forall>e\<in>set extensions. wf_descriptor e"
  shows "merged_urls (merge_mods extensions) t
           = (case last_writer extensions t of None \<Rightarrow> [] | Some u \<Rightarrow> [u])
       \<and> (\<forall>e u. filter (\<lambda>e. descriptor_url e t \<noteq> None) extensions = [e]
                  \<and> descriptor_url e t = Some u
                \<longrightarrow> merged_urls (merge_mods extensions) t = [u])
       \<and> ((\<exists>e\<in>set extensions. descriptor_url e t \<noteq> None)
            \<longleftrightarrow> merged_urls (merge_mods extensions) t \<noteq> [])"
proof -
  have main: "merged_urls (merge_mods extensions) t
      = (case last_writer extensions t of None \<Rightarrow> [] | Some u \<Rightarrow> [u])"
    unfolding merged_urls_all_defs all_defs_lookup [OF assms] ..
  have one: "\<forall>e u. filter (\<lambda>e. descriptor_url e t \<noteq> None) extensions = [e]
                  \<and> descriptor_url e t = Some u
                \<longrightarrow> merged_urls (merge_mods extensions) t = [u]"
    unfolding main by (simp add: last_writer_def)
  have kept: "(\<exists>e\<in>set extensions. descriptor_url e t \<noteq> None)
            \<longleftrightarrow> merged_urls (merge_mods extensions) t \<noteq> []"
  proof
    assume "\<exists>e\<in>set extensions. descriptor_url e t \<noteq> None"
    then have ne: "filter (\<lambda>e. descriptor_url e t \<noteq> None) extensions \<noteq> []"
      by (auto simp: filter_empty_conv)
    then have "last (filter (\<lambda>e. descriptor_url e t \<noteq> None) extensions)
        \<in> set (filter (\<lambda>e. descriptor_url e t \<noteq> None) extensions)"
      by (rule last_in_set)
    then have "descriptor_url (last (filter (\<lambda>e. descriptor_url e t \<noteq> None) extensions)) t
        \<noteq> None" by simp
    with ne show "merged_urls (merge_mods extensions) t \<noteq> []"
      unfolding main by (auto simp: last_writer_def split: list.splits option.splits)
  next
    assume "merged_urls (merge_mods extensions) t \<noteq> []"
    then have "filter (\<lambda>e. descriptor_url e t \<noteq> None) extensions \<noteq> []"
      unfolding main by (auto simp: last_writer_def split: list.splits option.splits)
    then show "\<exists>e\<in>set extensions. descriptor_url e t \<noteq> None"
      by (auto simp: filter_empty_conv)
  qed
  from main one kept show ?thesis by blast
qed

theorem merge_mods_last_writer_wins_witness:
  "wf_descriptor \<lparr>metadata = [(''name'', ''A'')],
       mods = [\<lparr>name = Some ''Sodium'', loader_tables = [(''fabric'', [(''1.20.1'', ''u1'')])]\<rparr>,
               \<lparr>name = Some ''Iris'', loader_tables = [(''fabric'', [(''1.20.1'', ''i1'')])]\<rparr>],
       source_file = ''a.toml''\<rparr>
   \<and> wf_descriptor \<lparr>metadata = [(''name'', ''B'')],
       mods = [\<lparr>name = Some ''Sodium'', loader_tables = [(''fabric'', [(''1.20.1'', ''u2'')])]\<rparr>,
               \<lparr>name = Some ''Iris'', loader_tables = [(''forge'', [(''1.19.2'', ''i2'')])]\<rparr>],
       source_file = ''b.toml''\<rparr>
   \<and> last_writer
        [\<lparr>metadata = [(''name'', ''A'')],
          mods = [\<lparr>name = Some ''Sodium'', loader_tables = [(''fabric'', [(''1.20.1'', ''u1'')])]\<rparr>,
                  \<lparr>name = Some ''Iris'', loader_tables = [(''fabric'', [(''1.20.1'', ''i1'')])]\<rparr>],
          source_file = ''a.toml''\<rparr>,
         \<lparr>metadata = [(''name'', ''B'')],
          mods = [\<lparr>name = Some ''Sodium'', loader_tables = [(''fabric'', [(''1.20.1'', ''u2'')])]\<rparr>,
                  \<lparr>name = Some ''Iris'', loader_tables = [(''forge'', [(''1.19.2'', ''i2'')])]\<rparr>],
          source_file = ''b.toml''\<rparr>]
        (''Sodium'', ''fabric'', ''1.20.1'') = Some ''u2''
   \<and> merged_urls (merge_mods
        [\<lparr>metadata = [(''name'', ''A'')],
          mods = [\<lparr>name = Some ''Sodium'', loader_tables = [(''fabric'', [(''1.20.1'', ''u1'')])]\<rparr>,
                  \<lparr>name = Some ''Iris'', loader_tables = [(''fabric'', [(''1.20.1'', ''i1'')])]\<rparr>],
          source_file = ''a.toml''\<rparr>,
         \<lparr>metadata = [(''name'', ''B'')],
          mods = [\<lparr>name = Some ''Sodium'', loader_tables = [(''fabric'', [(''1.20.1'', ''u2'')])]\<rparr>,
                  \<lparr>name = Some ''Iris'', loader_tables = [(''forge'', [(''1.19.2'', ''i2'')])]\<rparr>],
          source_file = ''b.toml''\<rparr>])
        (''Sodium'', ''fabric'', ''1.20.1'') = [''u2'']"
  (is "wf_descriptor ?A \<and> wf_descriptor ?B \<and> ?last \<and> ?merged")
proof -
  have a: "wf_descriptor ?A" and b: "wf_descriptor ?B"
    by (simp_all add: wf_descriptor_def)
  then have wf: "\<forall>e\<in>set [?A, ?B]. wf_descriptor e" by simp
  have l: ?last
    by (simp add: last_writer_def descriptor_url_def entry_url_def mod_name_def LOADERS_def)
  from merge_mods_last_writer_wins [OF wf, of "(''Sodium'', ''fabric'', ''1.20.1'')"]
  have "merged_urls (merge_mods [?A, ?B]) (''Sodium'', ''fabric'', ''1.20.1'')
      = (case last_writer [?A, ?B] (''Sodium'', ''fabric'', ''1.20.1'') of
           None \<Rightarrow> [] | Some u \<Rightarrow> [u])" by blast
  with l have ?merged by simp
  with a b l show ?thesis by blast
qed

lemma example_merge:
  "merge_mods
        [\<lparr>metadata = [(''name'', ''A'')],
          mods = [\<lparr>name = Some ''Sodium'', loader_tables = [(''fabric'', [(''1.20.1'', ''u1'')])]\<rparr>,
                  \<lparr>name = Some ''Iris'', loader_tables = [(''fabric'', [(''1.20.1'', ''i1'')])]\<rparr>],
          source_file = ''a.toml''\<rparr>,
         \<lparr>metadata = [(''name'', ''B'')],
          mods = [\<lparr>name = Some ''Sodium'', loader_tables = [(''fabric'', [(''1.20.1'', ''u2'')])]\<rparr>,
                  \<lparr>name = Some ''Iris'', loader_tables = [(''forge'', [(''1.19.2'', ''i2'')])]\<rparr>],
          source_file = ''b.toml''\<rparr>]
    = [\<lparr>name = Some ''Sodium'', loader_tables = [(''fabric'', [(''1.20.1'', ''u2'')])]\<rparr>,
       \<lparr>name = Some ''Iris'', loader_tables = [(''fabric'', [(''1.20.1'', ''i1'')]),
                                              (''forge'', [(''1.19.2'', ''i2'')])]\<rparr>]"
  by (simp add: merge_mods_def collect_mods_def merge_extension_def merge_mod_def
      merge_loader_def record_url_def place_mod_def LOADERS_def mod_name_def)

lemma all_defs_mods: "all_defs extensions = concat (map (\<lambda>ms. concat (map mod_defs ms)) (map mods extensions))"
  by (simp add: all_defs_def ext_defs_def [abs_def] comp_def)

lemma merge_mods_only_mods:
  "map mods extensions = map mods extensions' \<Longrightarrow> merge_mods extensions = merge_mods extensions'"
  by (simp add: merge_mods_def collect_mods_defs all_defs_mods)

lemma alist_eqI:
  assumes "map fst xs = map fst ys" and "distinct (map fst xs)"
    and "\<And>k. map_of xs k = map_of ys k"
  shows "xs = ys"
proof (rule nth_equalityI)
  from assms(1) show len: "length xs = length ys" by (rule map_eq_imp_length_eq)
  fix i assume i: "i < length xs"
  with len have j: "i < length ys" by simp
  from assms(1) i j have k: "fst (xs ! i) = fst (ys ! i)"
    by (metis nth_map)
  from assms(1,2) have dy: "distinct (map fst ys)" by simp
  from i have "xs ! i \<in> set xs" by simp
  with assms(2) have x: "map_of xs (fst (xs ! i)) = Some (snd (xs ! i))" by simp
  from j have "ys ! i \<in> set ys" by simp
  with dy have y: "map_of ys (fst (ys ! i)) = Some (snd (ys ! i))" by simp
  from x y k assms(3) [of "fst (xs ! i)"] have "snd (xs ! i) = snd (ys ! i)" by simp
  with k show "xs ! i = ys ! i" by (simp add: prod_eq_iff)
qed

lemma info_matchesI:
  "(\<And>k i. (k, i) \<in> set d \<Longrightarrow> k = (info_name i, info_loader i, info_version i))
     \<Longrightarrow> info_matches d"
  by (auto simp: info_matches_def)

lemma info_matchesD:
  "info_matches d \<Longrightarrow> (k, i) \<in> set d \<Longrightarrow> k = (info_name i, info_loader i, info_version i)"
  by (auto simp: info_matches_def)

lemma record_def_key_set: "fst ` set (record_def d (k, u)) = insert k (fst ` set d)"
  using arg_cong [OF record_def_keys [of d k u], of set] by (auto split: if_splits)

lemma record_def_info_matches: "info_matches d \<Longrightarrow> distinct (map fst d) \<Longrightarrow> info_matches (record_def d x)"
proof -
  assume m: "info_matches d" and d: "distinct (map fst d)"
  obtain n l v u where x: "x = ((n, l, v), u)" by (cases x) auto
  show ?thesis
  proof (cases "map_of d (n, l, v)")
    case None
    then have r: "record_def d x = AList.update (n, l, v)
        \<lparr>info_name = n, info_loader = l, info_version = v, info_url = u\<rparr> d"
      by (simp add: x record_def_def record_url_def)
    show ?thesis unfolding r
    proof (rule info_matchesI)
      fix k i assume "(k, i) \<in> set (AList.update (n, l, v)
        \<lparr>info_name = n, info_loader = l, info_version = v, info_url = u\<rparr> d)"
      from in_update_cases [OF d this] info_matchesD [OF m, of k i]
      show "k = (info_name i, info_loader i, info_version i)"
        by auto
    qed
  next
    case (Some i0)
    then have r: "record_def d x = AList.update (n, l, v) (i0\<lparr>info_url := u\<rparr>) d"
      by (simp add: x record_def_def record_url_def)
    from Some have "((n, l, v), i0) \<in> set d" by (rule map_of_SomeD)
    with m have i0: "(n, l, v) = (info_name i0, info_loader i0, info_version i0)"
      by (auto simp: info_matches_def)
    show ?thesis unfolding r
    proof (rule info_matchesI)
      fix k i assume "(k, i) \<in> set (AList.update (n, l, v) (i0\<lparr>info_url := u\<rparr>) d)"
      from in_update_cases [OF d this] info_matchesD [OF m, of k i] i0
      show "k = (info_name i, info_loader i, info_version i)"
        by auto
    qed
  qed
qed

lemma foldl_record_def_info_matches:
  "info_matches d \<Longrightarrow> distinct (map fst d) \<Longrightarrow> info_matches (foldl record_def d defs)"
proof (induction defs arbitrary: d)
  case Nil
  then show ?case by simp
next
  case (Cons x defs)
  from Cons.prems have "info_matches (record_def d x)" "distinct (map fst (record_def d x))"
    by (simp_all add: record_def_info_matches record_def_distinct)
  from Cons.IH [OF this] show ?case by simp
qed

lemma foldl_record_def_keys_known:
  "set (map fst defs) \<subseteq> set (map fst d) \<Longrightarrow> map fst (foldl record_def d defs) = map fst d"
proof (induction defs arbitrary: d)
  case Nil
  then show ?case by simp
next
  case (Cons x defs)
  obtain k u where x: "x = (k, u)" by (cases x)
  from Cons.prems x have k: "map fst (record_def d (k, u)) = map fst d"
    by (simp add: record_def_keys)
  with Cons.prems have "set (map fst defs) \<subseteq> set (map fst (record_def d (k, u)))" by simp
  from Cons.IH [OF this] k x show ?case by simp
qed

lemma foldl_record_def_keys_set:
  "fst ` set (foldl record_def d defs) = fst ` set d \<union> fst ` set defs"
proof (induction defs arbitrary: d)
  case Nil
  then show ?case by simp
next
  case (Cons x defs)
  obtain k u where x: "x = (k, u)" by (cases x)
  show ?case by (simp add: Cons.IH x record_def_key_set)
qed

lemma foldl_record_def_twice:
  "foldl record_def (foldl record_def [] defs) defs = foldl record_def [] defs"
proof (rule alist_eqI)
  let ?D = "foldl record_def [] defs"
  have dD: "distinct (map fst ?D)" by (rule foldl_record_def_distinct) simp
  have iD: "info_matches ?D"
    by (rule foldl_record_def_info_matches) (simp_all add: info_matches_def)
  show keys: "map fst (foldl record_def ?D defs) = map fst ?D"
    by (rule foldl_record_def_keys_known) (simp add: foldl_record_def_keys_set)
  show "distinct (map fst (foldl record_def ?D defs))"
    using dD by (rule foldl_record_def_distinct)
  have iD': "info_matches (foldl record_def ?D defs)"
    using iD dD by (rule foldl_record_def_info_matches)
  fix k
  have url: "map_option info_url (map_of (foldl record_def ?D defs) k)
      = map_option info_url (map_of ?D k)"
    unfolding foldl_record_def_url [of ?D] foldl_record_def_url [of "[]"]
    by (simp split: option.splits)
  show "map_of (foldl record_def ?D defs) k = map_of ?D k"
  proof (cases "map_of ?D k")
    case None
    with url show ?thesis by simp
  next
    case (Some i)
    with url obtain i' where i': "map_of (foldl record_def ?D defs) k = Some i'"
      and u: "info_url i' = info_url i" by auto
    from Some have "(k, i) \<in> set ?D" by (rule map_of_SomeD)
    with iD have ki: "k = (info_name i, info_loader i, info_version i)"
      by (auto simp: info_matches_def)
    from i' have "(k, i') \<in> set (foldl record_def ?D defs)" by (rule map_of_SomeD)
    with iD' have ki': "k = (info_name i', info_loader i', info_version i')"
      by (auto simp: info_matches_def)
    from ki ki' u have "i' = i" by simp
    with i' Some show ?thesis by simp
  qed
qed

lemma collect_mods_twice: "collect_mods (extensions @ extensions) = collect_mods extensions"
  by (simp add: collect_mods_defs all_defs_def foldl_record_def_twice)

text \<open>
  C6. \<open>merge_mods\<close> is a function of the mod entries of the descriptors, in input order,
  and of nothing else: two lists of descriptors with the same mod entries (whatever their
  metadata and the files they were read from) give the same merged set, so that every run
  on the same inputs returns the same output. It is idempotent: merging the inputs twice
  over returns the output of merging them once, entry for entry and in the same order.
\<close>

theorem merge_mods_deterministic_idempotent:
  "(map mods extensions = map mods extensions' \<longrightarrow> merge_mods extensions = merge_mods extensions')
   \<and> merge_mods (extensions @ extensions) = merge_mods extensions"
  using merge_mods_only_mods [of extensions extensions']
  by (simp add: merge_mods_def collect_mods_twice)


theorem merge_mods_deterministic_idempotent_witness:
  "map mods
     [\<lparr>metadata = [(''name'', ''A'')],
       mods = [\<lparr>name = Some ''Sodium'', loader_tables = [(''fabric'', [(''1.20.1'', ''u1'')])]\<rparr>],
       source_file = ''a.toml''\<rparr>]
   = map mods
     [\<lparr>metadata = [(''name'', ''Copy of A'')],
       mods = [\<lparr>name = Some ''Sodium'', loader_tables = [(''fabric'', [(''1.20.1'', ''u1'')])]\<rparr>],
       source_file = ''elsewhere/a.toml''\<rparr>]
   \<and> merge_mods
     [\<lparr>metadata = [(''name'', ''A'')],
       mods = [\<lparr>name = Some ''Sodium'', loader_tables = [(''fabric'', [(''1.20.1'', ''u1'')])]\<rparr>],
       source_file = ''a.toml''\<rparr>]
   = merge_mods
     [\<lparr>metadata = [(''name'', ''Copy of A'')],
       mods = [\<lparr>name = Some ''Sodium'', loader_tables = [(''fabric'', [(''1.20.1'', ''u1'')])]\<rparr>],
       source_file = ''elsewhere/a.toml''\<rparr>]"
  (is "map mods ?A = map mods ?B \<and> _")
proof -
  have same: "map mods ?A = map mods ?B" by simp
  with merge_mods_deterministic_idempotent [of ?A ?B]
  have "merge_mods ?A = merge_mods ?B" by blast
  with same show ?thesis by blast
qed

section \<open>Properties of install planning and of the failure report\<close>

text \<open>
  C7 (as amended). The platform of a URL is found by substring match against the whole
  lower-cased URL, with a fixed order of the signatures: a URL that contains
  \<open>modrinth.com\<close> is Modrinth; otherwise one that contains \<open>curseforge.com\<close> is
  CurseForge; every URL that contains neither is assigned the first platform, Modrinth.
\<close>

theorem detect_url_platform_whole_url:
  "detect_url_platform url =
     (if \<exists>a b. lower url = a @ ''modrinth.com'' @ b then ''modrinth''
      else if \<exists>a b. lower url = a @ ''curseforge.com'' @ b then ''curseforge''
      else ''modrinth'')"
  unfolding detect_url_platform_def contains_iff ..

text \<open>
  C7 as stated does not hold: the match is against the whole URL, not against its host.
  A CurseForge URL whose path contains \<open>modrinth.com\<close> is detected as Modrinth, where
  the detection by host that the spec describes gives CurseForge.
\<close>

theorem platform_not_determined_by_host:
  "url_host ''https://www.curseforge.com/minecraft/mc-mods/modrinth.com-bridge''
     = ''www.curseforge.com'' \<and>
   platform_by_host ''https://www.curseforge.com/minecraft/mc-mods/modrinth.com-bridge''
     = ''curseforge'' \<and>
   detect_url_platform ''https://www.curseforge.com/minecraft/mc-mods/modrinth.com-bridge''
     = ''modrinth''"
  by (simp add: detect_url_platform_def platform_by_host_def url_host_def lower_def
      lower_char_def)

lemma backoff_small:
  "0 \<le> attempt \<Longrightarrow> max_retries \<le> 4 \<Longrightarrow> \<exists>d. backoff attempt max_retries = Inr d"
  by (auto simp: backoff_def retry_delays_def)

lemma after_attempt_small:
  "0 \<le> attempt \<Longrightarrow> max_retries \<le> 4 \<Longrightarrow> \<exists>d. after_attempt r attempt max_retries = Inr d"
  using backoff_small [of attempt max_retries]
  by (cases r) (auto simp: after_attempt_def)

lemma attempt_loop_returns:
  "0 \<le> attempt \<Longrightarrow> max_retries \<le> 4 \<Longrightarrow>
     \<exists>res. fst (attempt_loop run command cwd max_retries attempt tr) = Inr res"
proof (induction run command cwd max_retries attempt tr rule: attempt_loop.induct)
  case (1 run command cwd max_retries attempt tr)
  show ?case
  proof (cases "attempt < max_retries")
    case False
    then have "fst (attempt_loop run command cwd max_retries attempt tr)
        = Inr (False, max_retries)"
      by (simp add: attempt_loop_done)
    then show ?thesis by blast
  next
    case lt: True
    show ?thesis
    proof (cases "run (nat attempt) = Completed 0")
      case True
      with lt have "fst (attempt_loop run command cwd max_retries attempt tr)
          = Inr (True, attempt + 1)"
        by (simp add: attempt_loop_success)
      then show ?thesis by blast
    next
      case ne: False
      from after_attempt_small [OF "1.prems"] obtain d
        where d: "after_attempt (run (nat attempt)) attempt max_retries = Inr d" by blast
      show ?thesis
      proof (cases d)
        case None
        from "1.IH"(1) [OF lt refl refl ne d None] "1.prems"
        have "\<exists>res. fst (attempt_loop run command cwd max_retries (attempt + 1)
            (tr @ [Invoke command cwd])) = Inr res" by simp
        with attempt_loop_retry [of attempt max_retries run d command cwd tr, OF lt ne d] None show ?thesis by simp
      next
        case (Some x)
        from "1.IH"(2) [OF lt refl refl ne d Some] "1.prems"
        have "\<exists>res. fst (attempt_loop run command cwd max_retries (attempt + 1)
            ((tr @ [Invoke command cwd]) @ [Sleep x])) = Inr res" by simp
        with attempt_loop_retry [of attempt max_retries run d command cwd tr, OF lt ne d] Some show ?thesis by simp
      qed
    qed
  qed
qed

lemma install_task_returns: "\<exists>res. install_task isdir run t = Inr res"
proof (cases "isdir (task_version_path t)")
  case False
  then have "install_task isdir run t = Inr (False, 0)"
    by (simp add: install_task_def add_mod_to_version_def)
  then show ?thesis by blast
next
  case True
  then show ?thesis
    using attempt_loop_returns [of 0 3 run _ "task_version_path t" "[]"]
    by (simp add: install_task_def add_mod_to_version_def Let_def)
qed

lemma task_outcomes_return:
  "(t, r) \<in> set (task_outcomes isdir_exec env tasks completion) \<Longrightarrow> \<exists>res. r = Inr res"
  using install_task_returns by (auto simp: task_outcomes_def)

lemma collect_failed_foldl:
  "(\<And>t r. (t, r) \<in> set outcomes \<Longrightarrow> \<exists>res. r = Inr res) \<Longrightarrow>
     collect_failed outcomes failed
       = Inr (foldl (\<lambda>f t. append_failed (task_key t) (task_name t) f) failed
                (failing_tasks outcomes))"
proof (induction outcomes failed rule: collect_failed.induct)
  case (1 failed)
  then show ?case by (simp add: failing_tasks_def)
next
  case (2 t e rest failed)
  from "2.prems" [of t "Inl e"] show ?case by simp
next
  case (3 t success attempts rest failed)
  have "\<And>t' r. (t', r) \<in> set rest \<Longrightarrow> \<exists>res. r = Inr res"
 using "3.prems" by auto
  from "3.IH" [OF this] show ?case by (simp add: failing_tasks_def)
qed

lemma set_first_seen [simp]: "set (first_seen xs) = set xs"
  by (induction xs) auto

lemma distinct_first_seen [simp]: "distinct (first_seen xs)"
  by (induction xs) (auto simp: distinct_removeAll)


lemma report_of_snoc:
  "report_of (ts @ [t]) = append_failed (task_key t) (task_name t) (report_of ts)"
  by (simp add: report_of_def)


lemma report_of_lookup:
  "map_of (report_of ts) k =
     (if k \<in> task_key ` set ts
      then Some (map task_name (filter (\<lambda>t. task_key t = k) ts)) else None)"
proof (induction ts rule: rev_induct)
  case Nil
  then show ?case by (simp add: report_of_def)
next
  case (snoc t ts)
  show ?case
  proof (cases "k = task_key t")
    case False
    with snoc show ?thesis
      by (simp add: report_of_snoc append_failed_def update_conv')
  next
    case True
    show ?thesis
    proof (cases "k \<in> task_key ` set ts")
      case False
      then have "filter (\<lambda>t. task_key t = k) ts = []"
        by (auto simp: filter_empty_conv)
      with snoc True False show ?thesis
        by (simp add: report_of_snoc append_failed_def update_conv')
    next
      case in_ts: True
      with snoc True show ?thesis
        by (simp add: report_of_snoc append_failed_def update_conv')
    qed
  qed
qed

lemma version_tasks_props:
  assumes "t \<in> set (version_tasks isdir base_dir mname loader (version, url))"
  shows "task_name t = mname \<and> task_loader t = loader \<and> task_version t = version
         \<and> task_url t = url \<and> task_platform t = detect_url_platform url
         \<and> task_version_path t = path_join (path_join base_dir loader) version
         \<and> isdir (task_version_path t)"
  using assms
  by (auto simp: version_tasks_def get_version_path_def Let_def split: option.splits if_splits)

lemma plan_tasks_props:
  assumes "t \<in> set (plan_tasks isdir base_dir merged_mods)"
  shows "task_loader t \<in> set LOADERS
         \<and> task_version_path t = path_join (path_join base_dir (task_loader t)) (task_version t)
         \<and> isdir (task_version_path t)
         \<and> task_platform t = detect_url_platform (task_url t)
         \<and> (\<exists>m\<in>set merged_mods. \<exists>loader_config. task_name t = mod_name m
               \<and> map_of (loader_tables m) (task_loader t) = Some loader_config
               \<and> (task_version t, task_url t) \<in> set loader_config)"
proof -
  from assms obtain m loader where m: "m \<in> set merged_mods" and l: "loader \<in> set LOADERS"
    and t: "t \<in> set (loader_tasks isdir base_dir m loader)"
    by (auto simp: plan_tasks_def)
  from t obtain loader_config where c: "map_of (loader_tables m) loader = Some loader_config"
    by (cases "map_of (loader_tables m) loader") (auto simp: loader_tasks_def)
  with t obtain item where i: "item \<in> set loader_config"
      and ti: "t \<in> set (version_tasks isdir base_dir (mod_name m) loader item)"
    by (auto simp: loader_tasks_def)
  obtain version url where item: "item = (version, url)" by (cases item)
  from version_tasks_props [OF ti [unfolded item]] m l c i item show ?thesis
    by auto
qed

lemma plan_tasks_complete:
  assumes "m \<in> set merged_mods" and "loader \<in> set LOADERS"
    and "map_of (loader_tables m) loader = Some loader_config"
    and "(version, url) \<in> set loader_config"
    and "isdir (path_join (path_join base_dir loader) version)"
    and "path_join (path_join base_dir loader) version \<noteq> []"
  shows "\<lparr>task_name = mod_name m, task_loader = loader, task_version = version,
          task_url = url, task_platform = detect_url_platform url,
          task_version_path = path_join (path_join base_dir loader) version\<rparr>
         \<in> set (plan_tasks isdir base_dir merged_mods)"
proof -
  let ?t = "\<lparr>task_name = mod_name m, task_loader = loader, task_version = version,
          task_url = url, task_platform = detect_url_platform url,
          task_version_path = path_join (path_join base_dir loader) version\<rparr>"
  have "?t \<in> set (version_tasks isdir base_dir (mod_name m) loader (version, url))"
    using assms(5,6) by (simp add: version_tasks_def get_version_path_def Let_def)
  with assms(3,4) have "?t \<in> set (loader_tasks isdir base_dir m loader)"
    by (auto simp: loader_tasks_def Let_def)
  with assms(1,2) show ?thesis
    by (auto simp: plan_tasks_def)
qed

lemma loader_key_inject:
  assumes "l \<in> set LOADERS" and "l' \<in> set LOADERS" and "l @ ''/'' @ v = l' @ ''/'' @ v'"
  shows "l = l' \<and> v = v'"
  using assms by (auto simp: LOADERS_def)

lemma valid_completion_nth:
  "valid_completion completion n \<Longrightarrow> i \<in> set completion \<Longrightarrow> i < n"
  by (auto simp: valid_completion_def)

lemma failing_tasks_subset:
  assumes "valid_completion completion (length tasks)"
  shows "set (failing_tasks (task_outcomes isdir_exec env tasks completion)) \<subseteq> set tasks"
  using valid_completion_nth [OF assms]
  by (auto simp: failing_tasks_def task_outcomes_def)

lemma add_mods_to_versions_report:
  assumes "valid_completion completion (length (plan_tasks isdir base_dir merged_mods))"
    and "add_mods_to_versions isdir isdir_exec env completion base_dir merged_mods currency = Inr report"
  shows "report = report_of (failing_tasks
           (task_outcomes isdir_exec env (plan_tasks isdir base_dir merged_mods) completion))"
proof (cases "plan_tasks isdir base_dir merged_mods = []")
  case True
  with assms(1) have "completion = []" by (simp add: valid_completion_def)
  with True assms(2) show ?thesis
    by (simp add: add_mods_to_versions_def task_outcomes_def failing_tasks_def report_of_def)
next
  case False
  with assms(2) have "collect_failed
      (task_outcomes isdir_exec env (plan_tasks isdir base_dir merged_mods) completion) [] = Inr report"
    by (simp add: add_mods_to_versions_def Let_def split: if_splits)
  moreover have "collect_failed
      (task_outcomes isdir_exec env (plan_tasks isdir base_dir merged_mods) completion) []
      = Inr (report_of (failing_tasks
           (task_outcomes isdir_exec env (plan_tasks isdir base_dir merged_mods) completion)))"
    unfolding report_of_def by (rule collect_failed_foldl) (rule task_outcomes_return)
  ultimately show ?thesis by simp
qed

lemma example_plan:
  "plan_tasks (\<lambda>p. p = ''build/x/fabric/1.20.1'') ''build/x''
     [\<lparr>name = Some ''Sodium'',
       loader_tables = [(''fabric'', [(''1.20.1'', ''https://modrinth.com/mod/sodium'')]),
                        (''forge'', [(''1.19.2'', ''https://www.curseforge.com/sodium'')])]\<rparr>]
   = [\<lparr>task_name = ''Sodium'', task_loader = ''fabric'', task_version = ''1.20.1'',
        task_url = ''https://modrinth.com/mod/sodium'', task_platform = ''modrinth'',
        task_version_path = ''build/x/fabric/1.20.1''\<rparr>]"
  by (simp add: plan_tasks_def LOADERS_def loader_tasks_def version_tasks_def
      get_version_path_def path_join_def endswith_def mod_name_def detect_url_platform_def
      lower_def lower_char_def)

lemma install_task_all_timeouts:
  "isdir (task_version_path t) \<Longrightarrow> install_task isdir (\<lambda>k. TimedOut) t = Inr (False, 3)"
  by (simp add: install_task_def add_mod_to_version_def attempt_loop.simps after_attempt_def
      backoff_def retry_delays_def Let_def)

text \<open>
  C4. Whatever the merged merged_mods and the snapshot of the directory tree: every task that
  planning emits has a target directory that exists in the snapshot, namely the directory
  of exactly its loader and version under the base directory; and an entry whose directory
  \<open>base/loader/version\<close> does not exist is dropped: no task is emitted for this loader and
  version, and the failure report of the run has no entry under their key.
\<close>

theorem planner_drops_missing_directories:
  assumes "valid_completion completion (length (plan_tasks isdir base_dir merged_mods))"
  shows "(\<forall>t\<in>set (plan_tasks isdir base_dir merged_mods).
            isdir (task_version_path t)
            \<and> task_version_path t
                = path_join (path_join base_dir (task_loader t)) (task_version t))
       \<and> (\<forall>loader\<in>set LOADERS. \<forall>version.
            \<not> isdir (path_join (path_join base_dir loader) version) \<longrightarrow>
              (\<forall>t\<in>set (plan_tasks isdir base_dir merged_mods).
                 \<not> (task_loader t = loader \<and> task_version t = version))
              \<and> (\<forall>report.
                   add_mods_to_versions isdir isdir_exec env completion base_dir merged_mods currency
                     = Inr report \<longrightarrow>
                   map_of report (loader @ ''/'' @ version) = None))"
proof (intro conjI ballI allI impI)
  fix t assume "t \<in> set (plan_tasks isdir base_dir merged_mods)"
  from plan_tasks_props [OF this]
  show "isdir (task_version_path t)"
    and "task_version_path t = path_join (path_join base_dir (task_loader t)) (task_version t)"
    by blast+
next
  fix loader version t
  assume "\<not> isdir (path_join (path_join base_dir loader) version)"
    and "t \<in> set (plan_tasks isdir base_dir merged_mods)"
  with plan_tasks_props [of t isdir base_dir merged_mods]
  show "\<not> (task_loader t = loader \<and> task_version t = version)" by metis
next
  fix loader version report
  assume l: "loader \<in> set LOADERS"
    and nodir: "\<not> isdir (path_join (path_join base_dir loader) version)"
    and rep: "add_mods_to_versions isdir isdir_exec env completion base_dir merged_mods currency
                = Inr report"
  let ?failures = "failing_tasks
      (task_outcomes isdir_exec env (plan_tasks isdir base_dir merged_mods) completion)"
  from add_mods_to_versions_report [OF assms rep] have r: "report = report_of ?failures" .
  show "map_of report (loader @ ''/'' @ version) = None"
  proof (rule ccontr)
    assume "map_of report (loader @ ''/'' @ version) \<noteq> None"
    with r have "loader @ ''/'' @ version \<in> task_key ` set ?failures"
      by (simp add: report_of_lookup split: if_splits)
    then obtain t where t: "t \<in> set ?failures" and k: "task_key t = loader @ ''/'' @ version"
      by auto
    from t failing_tasks_subset [OF assms] have tp: "t \<in> set (plan_tasks isdir base_dir merged_mods)"
      by blast
    from plan_tasks_props [OF tp] have tl: "task_loader t \<in> set LOADERS"
      and "isdir (task_version_path t)"
      and "task_version_path t = path_join (path_join base_dir (task_loader t)) (task_version t)"
      by blast+
    then have dir: "isdir (path_join (path_join base_dir (task_loader t)) (task_version t))"
      by simp
    from loader_key_inject [OF tl l k [unfolded task_key_def]]
    have "task_loader t = loader" "task_version t = version" by simp_all
    with dir nodir show False by simp
  qed
qed

theorem planner_drops_missing_directories_witness:
  "valid_completion [0]
     (length (plan_tasks (\<lambda>p. p = ''build/x/fabric/1.20.1'') ''build/x''
        [\<lparr>name = Some ''Sodium'',
          loader_tables = [(''fabric'', [(''1.20.1'', ''https://modrinth.com/mod/sodium'')]),
                           (''forge'', [(''1.19.2'', ''https://www.curseforge.com/sodium'')])]\<rparr>]))
   \<and> \<not> (\<lambda>p. p = ''build/x/fabric/1.20.1'') (path_join (path_join ''build/x'' ''forge'') ''1.19.2'')
   \<and> add_mods_to_versions (\<lambda>p. p = ''build/x/fabric/1.20.1'')
        (\<lambda>i p. p = ''build/x/fabric/1.20.1'') (\<lambda>i k. TimedOut) [0] ''build/x''
        [\<lparr>name = Some ''Sodium'',
          loader_tables = [(''fabric'', [(''1.20.1'', ''https://modrinth.com/mod/sodium'')]),
                           (''forge'', [(''1.19.2'', ''https://www.curseforge.com/sodium'')])]\<rparr>] 4
       = Inr [(''fabric/1.20.1'', [''Sodium''])]
   \<and> map_of [(''fabric/1.20.1'', [''Sodium''])] (''forge'' @ ''/'' @ ''1.19.2'') = None"
  (is "valid_completion [0] (length (plan_tasks ?isdir ?base ?mods)) \<and> ?nodir \<and> ?run \<and> ?absent")
proof -
  have vc: "valid_completion [0] (length (plan_tasks ?isdir ?base ?mods))"
    unfolding example_plan by (auto simp: valid_completion_def)
  have nodir: ?nodir
    by (simp add: path_join_def endswith_def)
  have run: ?run
    unfolding add_mods_to_versions_def example_plan
    by (simp add: task_outcomes_def install_task_all_timeouts append_failed_def task_key_def)
  have forge: "''forge'' \<in> set LOADERS"
    by (simp add: LOADERS_def)
  from planner_drops_missing_directories [OF vc, of "\<lambda>i p. p = ''build/x/fabric/1.20.1''"
      "\<lambda>i k. TimedOut" 4] forge nodir run
  have ?absent by blast
  with vc nodir run show ?thesis by blast
qed




section \<open>Properties of the sync flow\<close>










section \<open>Properties of the manifest rewriting\<close>

lemma strip_quoted: "strip (32 # dquote @ v @ dquote @ newline) = dquote @ v @ dquote"
  by (simp add: strip_def dquote_def newline_def is_space_def)

lemma strip_version_line: "strip (version_line v) = ustr ''version = '' @ dquote @ v @ dquote"
  by (simp add: strip_def version_line_def dquote_def newline_def is_space_def ustr_def)

lemma split_version_line:
  "split_once (version_line v) 61 = [ustr ''version '', 32 # dquote @ v @ dquote @ newline]"
  by (simp add: split_once_def version_line_def ustr_def)

lemma current_version_version_line: "current_version (version_line v) = Some v"
proof -
  have s: "startswith (ustr ''version = '' @ dquote @ v @ dquote) (ustr ''version ='')"
    by (simp add: ustr_def)
  show ?thesis
    unfolding current_version_def strip_version_line split_version_line list.case strip_quoted
    using s by (simp add: endswith_def dquote_def butlast_append)
qed

lemma rewrite_version_first:
  assumes "\<forall>l\<in>set pre. current_version l = None" and "current_version line = Some v"
  shows "rewrite_version suffix (pre @ [line] @ post)
           = Some (pre @ [version_line (v @ suffix)] @ post)"
  using assms by (induction pre) simp_all

lemma write_text_append: "write_text linesep (a @ b) = write_text linesep a @ write_text linesep b"
  by (simp add: write_text_def)

lemma write_text_concat: "write_text linesep (concat ls) = concat (map (write_text linesep) ls)"
  by (induction ls) (simp_all add: write_text_append write_text_def)

lemma write_text_posix: "write_text newline t = t"
  by (induction t) (simp_all add: write_text_def newline_def)

lemma write_lines_all:
  "\<forall>l\<in>set ls. encodable (write_text linesep l) \<Longrightarrow>
     write_lines linesep ls = (write_text linesep (concat ls), True)"
  by (induction ls) (simp_all add: write_text_append write_text_def)

lemma encodable_append [simp]: "encodable (a @ b) \<longleftrightarrow> encodable a \<and> encodable b"
  by (auto simp: encodable_def)

lemma encodable_write_text:
  "encodable linesep \<Longrightarrow> encodable t \<Longrightarrow> encodable (write_text linesep t)"
  by (auto simp: encodable_def write_text_def split: if_splits)

lemma set_universal_newlines: "set (universal_newlines s) \<subseteq> insert 10 (set s)"
  by (induction s rule: universal_newlines.induct) auto

lemma concat_split_lines: "concat (split_lines s) = s"
  by (induction s) (auto split: list.splits)

lemma universal_newlines_no_cr: "13 \<notin> set s \<Longrightarrow> universal_newlines s = s"
  by (induction s rule: universal_newlines.induct) auto

lemma encodable_readlines:
  assumes "encodable content" and "l \<in> set (readlines content)"
  shows "encodable l"
proof -
  from assms(2) have "set l \<subseteq> set (concat (split_lines (universal_newlines content)))"
    by (auto simp: readlines_def)
  also have "\<dots> = set (universal_newlines content)" by (simp only: concat_split_lines)
  also have "\<dots> \<subseteq> insert 10 (set content)" by (rule set_universal_newlines)
  finally show ?thesis using assms(1) by (auto simp: encodable_def)
qed

lemma encodable_version_line:
  "encodable (version_line v) \<longleftrightarrow> encodable v"
  by (simp add: version_line_def) (simp add: encodable_def ustr_def dquote_def newline_def)


lemma set_strip: "set (strip s) \<subseteq> set s"
proof -
  have "set (strip s) = set (dropWhile is_space (rev (dropWhile is_space s)))"
    by (simp add: strip_def)
  also have "\<dots> \<subseteq> set (rev (dropWhile is_space s))"
    by (auto dest: set_dropWhileD)
  also have "\<dots> \<subseteq> set s"
    by (auto dest: set_dropWhileD)
  finally show ?thesis .
qed

lemma set_tl_subset: "set (tl s) \<subseteq> set s"
  by (cases s) auto

lemma set_butlast_tl: "set (butlast (tl s)) \<subseteq> set s"
  using set_tl_subset [of s] by (auto dest: in_set_butlastD)

lemma current_version_subset:
  assumes "current_version line = Some v"
  shows "set v \<subseteq> set line"
proof -
  from assms obtain key rest where sp: "split_once line 61 = [key, rest]"
    and v: "v = butlast (tl (strip rest))"
    by (auto simp: current_version_def Let_def split: if_splits list.splits)
  from sp have "rest = tl (dropWhile (\<lambda>c. c \<noteq> 61) line)"
    by (auto simp: split_once_def split: if_splits)
  then have "set rest \<subseteq> set (dropWhile (\<lambda>c. c \<noteq> 61) line)"
    by (simp add: set_tl_subset)
  then have "set rest \<subseteq> set line"
    by (auto dest: set_dropWhileD)
  with v set_butlast_tl [of "strip rest"] set_strip [of rest] show ?thesis by blast
qed

lemma encodable_subset: "set a \<subseteq> set b \<Longrightarrow> encodable b \<Longrightarrow> encodable a"
  by (auto simp: encodable_def)

lemma update_pack_toml_rewritten:
  assumes "map_of entries ''pack.toml'' = Some (File content)"
    and "rewrite_version suffix (readlines content) = Some lines"
  shows "map_of (fst (update_pack_toml linesep suffix entries)) ''pack.toml''
           = Some (File (fst (write_lines linesep lines)))"
  using assms by (simp add: update_pack_toml_def update_conv')

lemma subdir_update_loader:
  "subdir versions version = Some entries \<Longrightarrow>
     subdir (map (\<lambda>(version, v). (version, fst (update_version_dir linesep suffix v))) versions)
         version
       = Some (fst (update_pack_toml linesep suffix entries))"
  by (auto simp: subdir_def map_of_map update_version_dir_def split: option.splits node.splits)

lemma subdir_update_base:
  "subdir base_dir loader = Some versions \<Longrightarrow>
     subdir (map (\<lambda>(loader, l). (loader, fst (update_loader_dir linesep suffix l))) base_dir)
         loader
       = Some (map (\<lambda>(version, v). (version, fst (update_version_dir linesep suffix v)))
           versions)"
  by (auto simp: subdir_def map_of_map update_loader_dir_def split: option.splits node.splits)

lemma pack_toml_of_updated:
  assumes "pack_toml_of base_dir loader version = Some (File content)"
    and "rewrite_version (ustr ''-'' @ extension_suffix) (readlines content) = Some lines"
  shows "pack_toml_of (fst (update_pack_versions linesep base_dir extension_suffix)) loader version
           = Some (File (fst (write_lines linesep lines)))"
proof -
  let ?suffix = "ustr ''-'' @ extension_suffix"
  from assms(1) obtain versions entries
    where l: "subdir base_dir loader = Some versions"
      and v: "subdir versions version = Some entries"
      and p: "map_of entries ''pack.toml'' = Some (File content)"
    by (auto simp: pack_toml_of_def split: option.splits)
  from update_pack_toml_rewritten [OF p assms(2)]
    subdir_update_base [OF l, of linesep ?suffix] subdir_update_loader [OF v, of linesep ?suffix]
  show ?thesis
    by (simp add: pack_toml_of_def update_pack_versions_def Let_def)
qed

text \<open>
  C8 (as amended). A version directory \<open>base/loader/version\<close> whose \<open>pack.toml\<close> has a
  version line (a line that passes the tests of the loop with the version \<open>v\<close>, as the
  line \<open>version = "v"\<close> does), the first such line of the file: after
  \<open>update_pack_versions\<close> the manifest has the line \<open>version = "v-suffix"\<close> in its
  place, and every other line keeps its text, with its line end, like every line end of the
  file, written as the line separator of the platform. A file without carriage returns,
  written where the separator is the newline, keeps every other line as it was.
\<close>

theorem version_suffix_appended:
  assumes "pack_toml_of base_dir loader version = Some (File content)"
    and "readlines content = pre @ [line] @ post"
    and "\<forall>l\<in>set pre. current_version l = None"
    and "line = version_line v \<or> current_version line = Some v"
    and "encodable content" and "encodable extension_suffix" and "encodable linesep"
  shows "pack_toml_of (fst (update_pack_versions linesep base_dir extension_suffix)) loader version
           = Some (File (write_text linesep (concat pre)
                @ write_text linesep (version_line (v @ ustr ''-'' @ extension_suffix))
                @ write_text linesep (concat post)))
       \<and> (13 \<notin> set content \<and> linesep = newline \<longrightarrow>
            content = concat pre @ line @ concat post
            \<and> pack_toml_of (fst (update_pack_versions linesep base_dir extension_suffix))
                  loader version
                = Some (File (concat pre @ version_line (v @ ustr ''-'' @ extension_suffix)
                    @ concat post)))"
proof -
  let ?suffix = "ustr ''-'' @ extension_suffix"
  let ?lines = "pre @ [version_line (v @ ?suffix)] @ post"
  from assms(4) have ver: "current_version line = Some v"
    using current_version_version_line by auto
  have rw: "rewrite_version ?suffix (readlines content) = Some ?lines"
    unfolding assms(2) using assms(3) ver
    by (rule rewrite_version_first)
  have old: "\<And>l. l \<in> set (pre @ [line] @ post) \<Longrightarrow> encodable l"
    using encodable_readlines [OF assms(5)] assms(2) by simp
  from old [of line] current_version_subset [OF ver] have v: "encodable v"
    by (auto intro: encodable_subset)
  have dash: "encodable (ustr ''-'')"
    by (simp add: encodable_def ustr_def)
  from v dash assms(6) have new: "encodable (version_line (v @ ?suffix))"
    by (simp add: encodable_version_line)
  have "\<forall>l\<in>set ?lines. encodable l"
    using old new by auto
  then have "\<forall>l\<in>set ?lines. encodable (write_text linesep l)"
    using assms(7) by (simp add: encodable_write_text)
  then have "write_lines linesep ?lines = (write_text linesep (concat ?lines), True)"
    by (rule write_lines_all)
  with pack_toml_of_updated [OF assms(1) rw, of linesep]
  have main: "pack_toml_of (fst (update_pack_versions linesep base_dir extension_suffix))
        loader version
      = Some (File (write_text linesep (concat pre)
                @ write_text linesep (version_line (v @ ?suffix))
                @ write_text linesep (concat post)))"
    by (simp add: write_text_append)
  have verbatim: "content = concat pre @ line @ concat post" if "13 \<notin> set content"
  proof -
    from that have "concat (readlines content) = content"
      by (simp add: readlines_def universal_newlines_no_cr concat_split_lines)
    then show ?thesis by (simp add: assms(2))
  qed
  show ?thesis
  proof (intro conjI impI)
    show "pack_toml_of (fst (update_pack_versions linesep base_dir extension_suffix))
        loader version
      = Some (File (write_text linesep (concat pre)
                @ write_text linesep (version_line (v @ ?suffix))
                @ write_text linesep (concat post)))"
      by (rule main)
  next
    assume "13 \<notin> set content \<and> linesep = newline"
    then show "content = concat pre @ line @ concat post"
      using verbatim by blast
  next
    assume "13 \<notin> set content \<and> linesep = newline"
    with main show "pack_toml_of (fst (update_pack_versions linesep base_dir extension_suffix))
        loader version
      = Some (File (concat pre @ version_line (v @ ?suffix) @ concat post))"
      by (simp add: write_text_posix)
  qed
qed

lemma example_crlf_lines:
  "readlines (ustr ''name = x'' @ [13, 10] @ ustr ''version = '' @ dquote @ ustr ''1.0'' @ dquote
       @ [13, 10])
     = [ustr ''name = x'' @ newline, version_line (ustr ''1.0'')]"
  by (simp add: readlines_def ustr_def dquote_def newline_def version_line_def)

lemma example_name_line: "current_version (ustr ''name = x'' @ newline) = None"
  by (simp add: current_version_def strip_def is_space_def ustr_def newline_def)

text \<open>
  A line that ends in white space outside ASCII passes the tests like any other: here the
  line ends with a no-break space (U+00A0) before its newline.
\<close>

lemma current_version_no_break_space:
  "current_version (ustr ''version = '' @ dquote @ ustr ''1.0'' @ dquote @ [160, 10])
     = Some (ustr ''1.0'')"
  by (simp add: current_version_def strip_def split_once_def is_space_def endswith_def
      ustr_def dquote_def)

text \<open>
  C8 as stated does not hold: the other lines are not preserved verbatim when the file has
  line ends that are not the separator of the platform. A manifest with CR LF line ends,
  rewritten where the separator is LF: the line \<open>name = x\<close> with its CR LF is no longer in
  the file, which has it with LF.
\<close>

theorem crlf_lines_not_verbatim:
  "pack_toml_of (fst (update_pack_versions newline
       [(''fabric'', Dir [(''1.20.1'', Dir [(''pack.toml'',
          File (ustr ''name = x'' @ [13, 10] @ ustr ''version = '' @ dquote @ ustr ''1.0''
                  @ dquote @ [13, 10]))])])]
       (ustr ''opti''))) ''fabric'' ''1.20.1''
     = Some (File (ustr ''name = x'' @ newline @ version_line (ustr ''1.0-opti'')))
   \<and> \<not> contains (ustr ''name = x'' @ newline @ version_line (ustr ''1.0-opti''))
          (ustr ''name = x'' @ [13, 10])"
proof -
  have rw: "rewrite_version (ustr ''-'' @ ustr ''opti'')
      [ustr ''name = x'' @ newline, version_line (ustr ''1.0'')]
      = Some [ustr ''name = x'' @ newline, version_line (ustr ''1.0'' @ ustr ''-'' @ ustr ''opti'')]"
    by (simp add: example_name_line current_version_version_line)
  have wl: "write_lines newline
      [ustr ''name = x'' @ newline, version_line (ustr ''1.0'' @ ustr ''-'' @ ustr ''opti'')]
      = (ustr ''name = x'' @ newline @ version_line (ustr ''1.0-opti''), True)"
    by (simp add: write_text_posix) (simp add: encodable_def ustr_def newline_def
        version_line_def dquote_def)
  let ?content = "ustr ''name = x'' @ [13, 10] @ ustr ''version = '' @ dquote @ ustr ''1.0''
      @ dquote @ [13, 10]"
  let ?base = "[(''fabric'', Dir [(''1.20.1'', Dir [(''pack.toml'', File ?content)])])]"
  have pt: "pack_toml_of ?base ''fabric'' ''1.20.1'' = Some (File ?content)"
    by (simp add: pack_toml_of_def subdir_def)
  have rw': "rewrite_version (ustr ''-'' @ ustr ''opti'') (readlines ?content)
      = Some [ustr ''name = x'' @ newline, version_line (ustr ''1.0'' @ ustr ''-'' @ ustr ''opti'')]"
    unfolding example_crlf_lines by (rule rw)
  have "pack_toml_of (fst (update_pack_versions newline ?base (ustr ''opti''))) ''fabric'' ''1.20.1''
     = Some (File (ustr ''name = x'' @ newline @ version_line (ustr ''1.0-opti'')))"
    unfolding pack_toml_of_updated [OF pt rw'] wl by simp
  moreover have "\<not> contains (ustr ''name = x'' @ newline @ version_line (ustr ''1.0-opti''))
          (ustr ''name = x'' @ [13, 10])"
    by (simp add: ustr_def newline_def version_line_def dquote_def)
  ultimately show ?thesis by blast
qed


lemma example_lf_lines:
  "readlines (ustr ''name = x'' @ newline @ version_line (ustr ''1.0'') @ ustr ''[index]''
       @ newline)
     = [ustr ''name = x'' @ newline] @ [version_line (ustr ''1.0'')]
         @ [ustr ''[index]'' @ newline]"
  by (simp add: readlines_def ustr_def dquote_def newline_def version_line_def)

theorem version_suffix_appended_witness:
  "pack_toml_of
     [(''fabric'', Dir [(''1.20.1'', Dir [(''pack.toml'',
         File (ustr ''name = x'' @ newline @ version_line (ustr ''1.0'') @ ustr ''[index]''
                 @ newline))])])]
     ''fabric'' ''1.20.1''
     = Some (File (ustr ''name = x'' @ newline @ version_line (ustr ''1.0'') @ ustr ''[index]''
                 @ newline))
   \<and> readlines (ustr ''name = x'' @ newline @ version_line (ustr ''1.0'') @ ustr ''[index]''
         @ newline)
       = [ustr ''name = x'' @ newline] @ [version_line (ustr ''1.0'')]
           @ [ustr ''[index]'' @ newline]
   \<and> current_version (ustr ''name = x'' @ newline) = None
   \<and> encodable (ustr ''name = x'' @ newline @ version_line (ustr ''1.0'') @ ustr ''[index]''
         @ newline)
   \<and> encodable (ustr ''opti'') \<and> encodable newline
   \<and> 13 \<notin> set (ustr ''name = x'' @ newline @ version_line (ustr ''1.0'') @ ustr ''[index]''
         @ newline)
   \<and> pack_toml_of (fst (update_pack_versions newline
        [(''fabric'', Dir [(''1.20.1'', Dir [(''pack.toml'',
            File (ustr ''name = x'' @ newline @ version_line (ustr ''1.0'') @ ustr ''[index]''
                    @ newline))])])]
        (ustr ''opti''))) ''fabric'' ''1.20.1''
     = Some (File (ustr ''name = x'' @ newline
               @ version_line (ustr ''1.0'' @ ustr ''-'' @ ustr ''opti'')
               @ ustr ''[index]'' @ newline))"
  (is "?before \<and> ?lines \<and> ?first \<and> ?enc \<and> ?encs \<and> ?encl \<and> ?nocr \<and> ?after")
proof -
  have before: ?before
    by (simp add: pack_toml_of_def subdir_def)
  have lines: ?lines
    by (rule example_lf_lines)
  have first: ?first
    by (rule example_name_line)
  then have pre: "\<forall>l\<in>set [ustr ''name = x'' @ newline]. current_version l = None"
    by simp
  have enc: ?enc and encs: ?encs and encl: ?encl and nocr: ?nocr
    by (simp_all add: encodable_def ustr_def newline_def version_line_def dquote_def)
  have ver: "version_line (ustr ''1.0'') = version_line (ustr ''1.0'')
      \<or> current_version (version_line (ustr ''1.0'')) = Some (ustr ''1.0'')"
    by simp
  from version_suffix_appended [OF before lines pre ver enc encs encl] nocr
  have ?after by (simp add: write_text_posix)
  with before lines first enc encs encl nocr show ?thesis by blast
qed

end
